theory Spec2Isabelle
  imports Main "HOL-Library.Word"
begin

section \<open>JavaScript strings\<close>

text \<open>
  A JavaScript string is a sequence of 16-bit code units. Literals of the source are
  written with \<open>ascii\<close>; code units outside printable ASCII are given by number.
\<close>

type_synonym jschar = "16 word"
type_synonym jsstring = "jschar list"

definition ascii :: "string \<Rightarrow> jsstring" where
  "ascii s = map of_char s"

definition LF :: jschar where "LF = 0x0A"
definition CR :: jschar where "CR = 0x0D"
definition SP :: jschar where "SP = 0x20"
definition NBSP :: jschar where "NBSP = 0xA0"

text \<open>ECMAScript \<open>LineTerminator\<close>: LF, CR, U+2028, U+2029.\<close>

definition isLineTerminator :: "jschar \<Rightarrow> bool" where
  "isLineTerminator c \<longleftrightarrow> c = 0x0A \<or> c = 0x0D \<or> c = 0x2028 \<or> c = 0x2029"

text \<open>
  The characters removed by \<open>String.prototype.trim\<close> and matched by \<open>\s\<close>:
  ECMAScript \<open>WhiteSpace\<close> (TAB, VT, FF, SP, NBSP, U+FEFF and the Unicode space
  separators) together with the line terminators.
\<close>

definition isWhiteSpace :: "jschar \<Rightarrow> bool" where
  "isWhiteSpace c \<longleftrightarrow>
     c = 0x09 \<or> c = 0x0B \<or> c = 0x0C \<or> c = 0x20 \<or> c = 0xA0 \<or> c = 0xFEFF \<or>
     c = 0x1680 \<or> (0x2000 \<le> c \<and> c \<le> 0x200A) \<or> c = 0x202F \<or> c = 0x205F \<or>
     c = 0x3000 \<or> isLineTerminator c"

text \<open>\<open>s.trim()\<close>\<close>

definition trimStart :: "jsstring \<Rightarrow> jsstring" where
  "trimStart s = dropWhile isWhiteSpace s"

definition trimEnd :: "jsstring \<Rightarrow> jsstring" where
  "trimEnd s = rev (dropWhile isWhiteSpace (rev s))"

definition trim :: "jsstring \<Rightarrow> jsstring" where
  "trim s = trimEnd (trimStart s)"

text \<open>
  \<open>s.split(d)\<close> for a one-character separator: the empty string gives one empty
  piece, and a separator at the end gives a last empty piece.
\<close>

fun split_on :: "jschar \<Rightarrow> jsstring \<Rightarrow> jsstring list" where
  "split_on d [] = [[]]"
| "split_on d (c # cs) =
     (if c = d then [] # split_on d cs
      else (case split_on d cs of piece # pieces \<Rightarrow> (c # piece) # pieces | [] \<Rightarrow> [[c]]))"

text \<open>\<open>pieces.join(d)\<close> for a one-character separator.\<close>

fun join :: "jschar \<Rightarrow> jsstring list \<Rightarrow> jsstring" where
  "join d [] = []"
| "join d [l] = l"
| "join d (l # ls) = l @ d # join d ls"

text \<open>\<open>s.includes(t)\<close>\<close>

fun str_includes :: "jsstring \<Rightarrow> jsstring \<Rightarrow> bool" where
  "str_includes [] t = (t = [])"
| "str_includes (c # cs) t = (take (length t) (c # cs) = t \<or> str_includes cs t)"

section \<open>The source preprocessor\<close>

text \<open>
  \<^verbatim>\<open>
  export function preprocessSource(source: string): string {
      let processed = source.replace(/\u00A0/g, ' ');
      const lines = processed.split('\n')
          .map(line => line.trim())
          .filter(line => line.length > 0);
      return lines.join('\n');
  }
  \<close>
\<close>

definition replace_nbsp :: "jsstring \<Rightarrow> jsstring" where
  "replace_nbsp s = map (\<lambda>c. if c = NBSP then SP else c) s"

definition preprocessSource :: "jsstring \<Rightarrow> jsstring" where
  "preprocessSource source =
     (let processed = replace_nbsp source;
          lines = filter (\<lambda>line. length line > 0) (map trim (split_on LF processed))
      in join LF lines)"

section \<open>The persistent cache\<close>

subsection \<open>Cache entries\<close>

text \<open>
  \<^verbatim>\<open>
  export class CacheEntry {
      hash: string; svg: string; timestamp: number; accessCount: number;
      constructor(hash, svg, timestamp = Date.now(), accessCount = 0) { ... }
      touch(): void { this.accessCount++; }
  }
  \<close>
  The two numbers are doubles. The model holds the whole ones, as integers; an integer
  that is no double is not a value of the program.
\<close>

record CacheEntry =
  hash :: jsstring
  svg :: jsstring
  timestamp :: int
  accessCount :: int

definition new_CacheEntry :: "jsstring \<Rightarrow> jsstring \<Rightarrow> int \<Rightarrow> int \<Rightarrow> CacheEntry" where
  "new_CacheEntry h s ts ac = \<lparr>hash = h, svg = s, timestamp = ts, accessCount = ac\<rparr>"

text \<open>\<open>new CacheEntry(hash, svg)\<close> at clock reading \<open>now\<close>: both defaults apply.\<close>

definition new_CacheEntry_now :: "int \<Rightarrow> jsstring \<Rightarrow> jsstring \<Rightarrow> CacheEntry" where
  "new_CacheEntry_now now h s = new_CacheEntry h s now 0"

text \<open>
  \<open>x++\<close> on a whole double: \<open>x + 1\<close>, rounded to the nearest double and at a tie to
  the one with the even significand. The sum is exact from \<open>-2^53\<close> up to \<open>2^53 - 1\<close>.
  Beyond, up to \<open>2^54\<close> in size, the doubles are the even numbers, \<open>x + 1\<close> lies
  half way between two of them, and the result is the multiple of four; from \<open>2^54\<close> on
  the doubles are four or more apart and the result is \<open>x\<close>. So \<open>2^53\<close> stays
  \<open>2^53\<close>.
\<close>

definition increment :: "int \<Rightarrow> int" where
  "increment x =
     (if - (2 ^ 53) \<le> x \<and> x < 2 ^ 53 then x + 1
      else if \<bar>x\<bar> < 2 ^ 54 \<and> x mod 4 = 2 then x + 2
      else x)"

definition touch :: "CacheEntry \<Rightarrow> CacheEntry" where
  "touch e = e\<lparr>accessCount := increment (accessCount e)\<rparr>"

text \<open>The counts on which \<open>touch\<close> adds exactly one.\<close>

definition exact_count :: "int \<Rightarrow> bool" where
  "exact_count x \<longleftrightarrow> - (2 ^ 53) \<le> x \<and> x < 2 ^ 53"

subsection \<open>The store\<close>

text \<open>
  \<open>vscode.Memento\<close>: a store from string keys to values; \<open>update(key, undefined)\<close>
  deletes the key. The cache manager keeps two shapes of value in it: entry objects,
  and the index, an array of hashes. A value that is neither is not modelled.
\<close>

datatype jsvalue = Entry_data CacheEntry | Hash_list "jsstring list"

type_synonym memento = "jsstring \<rightharpoonup> jsvalue"

definition update :: "jsstring \<Rightarrow> jsvalue option \<Rightarrow> memento \<Rightarrow> memento" where
  "update key v m = m(key := v)"

text \<open>
  What a cache-manager call can end with besides its result: a \<open>TypeError\<close> thrown
  when the value under the index key is not an array (the message is the engine's,
  here V8's), or \<open>Not_an_entry\<close>, where \<open>get\<close> finds an array under an entry key:
  JavaScript goes on with the array's undefined fields, which this model does not follow.
  Both need the hash \<open>index\<close>, whose entry key is the index key.
\<close>

datatype cm_error = TypeError jsstring | Not_an_entry

type_synonym 'a cm_result = "(cm_error + 'a) \<times> memento"

subsection \<open>The cache manager\<close>

text \<open>
  Each method is \<open>async\<close>; its awaits are on the store's own \<open>update\<close>, and the
  model runs a call to its end. A call returns its outcome and the store it leaves;
  when a call throws, the store holds the writes made before the throw.
\<close>

definition CACHE_KEY_PREFIX :: jsstring where
  "CACHE_KEY_PREFIX = ascii ''tikzjax.cache.''"

definition CACHE_INDEX_KEY :: jsstring where
  "CACHE_INDEX_KEY = ascii ''tikzjax.cache.index''"

definition getCacheKey :: "jsstring \<Rightarrow> jsstring" where
  "getCacheKey h = CACHE_KEY_PREFIX @ h"

text \<open>\<open>return this.globalState.get<string[]>(CACHE_INDEX_KEY) || [];\<close> (any object is truthy)\<close>

definition getIndex :: "memento \<Rightarrow> jsvalue" where
  "getIndex m = (case m CACHE_INDEX_KEY of None \<Rightarrow> Hash_list [] | Some v \<Rightarrow> v)"

text \<open>
  \<^verbatim>\<open>
  const index = await this.getIndex();
  if (!index.includes(hash)) {
      index.push(hash);
      await this.globalState.update(CacheManager.CACHE_INDEX_KEY, index);
  }
  \<close>
\<close>

definition addToIndex :: "jsstring \<Rightarrow> memento \<Rightarrow> unit cm_result" where
  "addToIndex h m =
     (case getIndex m of
        Hash_list index \<Rightarrow>
          if h \<in> set index then (Inr (), m)
          else (Inr (), update CACHE_INDEX_KEY (Some (Hash_list (index @ [h]))) m)
      | Entry_data _ \<Rightarrow> (Inl (TypeError (ascii ''index.includes is not a function'')), m))"

text \<open>
  \<^verbatim>\<open>
  const index = await this.getIndex();
  const newIndex = index.filter(h => h !== hash);
  await this.globalState.update(CacheManager.CACHE_INDEX_KEY, newIndex);
  \<close>
\<close>

definition removeFromIndex :: "jsstring \<Rightarrow> memento \<Rightarrow> unit cm_result" where
  "removeFromIndex h m =
     (case getIndex m of
        Hash_list index \<Rightarrow>
          (Inr (), update CACHE_INDEX_KEY (Some (Hash_list (filter (\<lambda>x. x \<noteq> h) index))) m)
      | Entry_data _ \<Rightarrow> (Inl (TypeError (ascii ''index.filter is not a function'')), m))"

text \<open>
  \<^verbatim>\<open>
  async get(hash: string): Promise<CacheEntry | undefined> {
      const key = this.getCacheKey(hash);
      const data = this.globalState.get<{...}>(key);
      if (!data) { return undefined; }
      const entry = new CacheEntry(data.hash, data.svg, data.timestamp, data.accessCount);
      entry.touch();
      await this.globalState.update(key, { hash: entry.hash, svg: entry.svg,
          timestamp: entry.timestamp, accessCount: entry.accessCount });
      return entry;
  }
  \<close>
\<close>

definition cm_get :: "jsstring \<Rightarrow> memento \<Rightarrow> CacheEntry option cm_result" where
  "cm_get h m =
     (let key = getCacheKey h in
      case m key of
        None \<Rightarrow> (Inr None, m)
      | Some (Entry_data data) \<Rightarrow>
          (let entry = touch (new_CacheEntry (hash data) (svg data) (timestamp data) (accessCount data))
           in (Inr (Some entry),
               update key (Some (Entry_data (new_CacheEntry (hash entry) (svg entry)
                                               (timestamp entry) (accessCount entry)))) m))
      | Some (Hash_list _) \<Rightarrow> (Inl Not_an_entry, m))"

text \<open>
  \<^verbatim>\<open>
  async set(hash: string, diagram: CacheEntry): Promise<void> {
      const key = this.getCacheKey(hash);
      await this.globalState.update(key, { hash: diagram.hash, svg: diagram.svg,
          timestamp: diagram.timestamp, accessCount: diagram.accessCount });
      await this.addToIndex(hash);
  }
  \<close>
\<close>

definition cm_set :: "jsstring \<Rightarrow> CacheEntry \<Rightarrow> memento \<Rightarrow> unit cm_result" where
  "cm_set h diagram m =
     (let key = getCacheKey h;
          m1 = update key (Some (Entry_data (new_CacheEntry (hash diagram) (svg diagram)
                                               (timestamp diagram) (accessCount diagram)))) m
      in addToIndex h m1)"

text \<open>
  \<^verbatim>\<open>
  async invalidate(hash: string): Promise<void> {
      const key = this.getCacheKey(hash);
      await this.globalState.update(key, undefined);
      await this.removeFromIndex(hash);
  }
  \<close>
\<close>

definition invalidate :: "jsstring \<Rightarrow> memento \<Rightarrow> unit cm_result" where
  "invalidate h m =
     (let key = getCacheKey h;
          m1 = update key None m
      in removeFromIndex h m1)"

text \<open>
  \<^verbatim>\<open>
  async clear(): Promise<void> {
      const index = await this.getIndex();
      for (const hash of index) {
          const key = this.getCacheKey(hash);
          await this.globalState.update(key, undefined);
      }
      await this.globalState.update(CacheManager.CACHE_INDEX_KEY, undefined);
  }
  \<close>
\<close>

fun clear_entries :: "jsstring list \<Rightarrow> memento \<Rightarrow> memento" where
  "clear_entries [] m = m"
| "clear_entries (h # hs) m = clear_entries hs (update (getCacheKey h) None m)"

definition clear :: "memento \<Rightarrow> unit cm_result" where
  "clear m =
     (case getIndex m of
        Hash_list index \<Rightarrow> (Inr (), update CACHE_INDEX_KEY None (clear_entries index m))
      | Entry_data _ \<Rightarrow> (Inl (TypeError (ascii ''index is not iterable'')), m))"

text \<open>
  \<^verbatim>\<open>
  async getStats(): Promise<CacheStats> {
      const index = await this.getIndex();
      let totalSize = 0;
      for (const hash of index) {
          const entry = await this.get(hash);
          if (entry) { totalSize += entry.svg.length + 100; }
      }
      return { entryCount: index.length, totalSize };
  }
  \<close>
  The loop calls \<open>get\<close>, so taking the statistics touches every entry.
\<close>

record CacheStats =
  entryCount :: nat
  totalSize :: nat

fun stats_loop :: "jsstring list \<Rightarrow> nat \<Rightarrow> memento \<Rightarrow> nat cm_result" where
  "stats_loop [] n m = (Inr n, m)"
| "stats_loop (h # hs) n m =
     (case cm_get h m of
        (Inl e, m') \<Rightarrow> (Inl e, m')
      | (Inr None, m') \<Rightarrow> stats_loop hs n m'
      | (Inr (Some entry), m') \<Rightarrow> stats_loop hs (n + (length (svg entry) + 100)) m')"

definition getStats :: "memento \<Rightarrow> CacheStats cm_result" where
  "getStats m =
     (case getIndex m of
        Hash_list index \<Rightarrow>
          (case stats_loop index 0 m of
             (Inl e, m') \<Rightarrow> (Inl e, m')
           | (Inr n, m') \<Rightarrow> (Inr \<lparr>entryCount = length index, totalSize = n\<rparr>, m'))
      | Entry_data _ \<Rightarrow> (Inl (TypeError (ascii ''index is not iterable'')), m))"

text \<open>A sequence of calls, each awaited before the next; a throw ends the sequence.\<close>

datatype cache_op = Set jsstring CacheEntry | Invalidate jsstring | Clear

fun apply_op :: "cache_op \<Rightarrow> memento \<Rightarrow> unit cm_result" where
  "apply_op (Set h e) m = cm_set h e m"
| "apply_op (Invalidate h) m = invalidate h m"
| "apply_op Clear m = clear m"

fun run_ops :: "cache_op list \<Rightarrow> memento \<Rightarrow> unit cm_result" where
  "run_ops [] m = (Inr (), m)"
| "run_ops (c # cs) m =
     (case apply_op c m of
        (Inl e, m') \<Rightarrow> (Inl e, m')
      | (Inr _, m') \<Rightarrow> run_ops cs m')"

text \<open>The hashes a call names.\<close>

fun op_hashes :: "cache_op \<Rightarrow> jsstring set" where
  "op_hashes (Set h e) = {h}"
| "op_hashes (Invalidate h) = {h}"
| "op_hashes Clear = {}"

text \<open>
  The one hash whose entry key is the index key. A fingerprint is a SHA-256 digest in
  hexadecimal, 64 characters long, so no fingerprint is this hash.
\<close>

definition reserved :: "jsstring \<Rightarrow> bool" where
  "reserved h \<longleftrightarrow> getCacheKey h = CACHE_INDEX_KEY"

text \<open>What the store holds for a hash, and whether \<open>get\<close> finds it.\<close>

definition stored :: "jsstring \<Rightarrow> memento \<Rightarrow> CacheEntry option" where
  "stored h m = (case m (getCacheKey h) of Some (Entry_data d) \<Rightarrow> Some d | _ \<Rightarrow> None)"

definition present :: "jsstring \<Rightarrow> memento \<Rightarrow> bool" where
  "present h m = (case fst (cm_get h m) of Inr (Some e) \<Rightarrow> True | _ \<Rightarrow> False)"

section \<open>Regular expressions\<close>

text \<open>
  The regular expressions of the source are written with matchers in continuation
  style, which try the alternatives in the order of the ECMAScript backtracking
  semantics: a matcher gets the continuation that matches the rest of the pattern, and
  gives the first result the continuation accepts. A cursor is a position in the text:
  the text before it, reversed, and the text after it.
\<close>

type_synonym cursor = "jsstring \<times> jsstring"

text \<open>One character of a class; a literal; a literal under the \<open>i\<close> flag.\<close>

definition BACKSLASH :: jschar where "BACKSLASH = 0x5C"

fun chr :: "(jschar \<Rightarrow> bool) \<Rightarrow> (cursor \<Rightarrow> 'a option) \<Rightarrow> cursor \<Rightarrow> 'a option" where
  "chr p k (b, []) = None"
| "chr p k (b, c # cs) = (if p c then k (c # b, cs) else None)"

fun lit :: "jsstring \<Rightarrow> (cursor \<Rightarrow> 'a option) \<Rightarrow> cursor \<Rightarrow> 'a option" where
  "lit [] k cur = k cur"
| "lit (x # xs) k cur = chr (\<lambda>c. c = x) (lit xs k) cur"

text \<open>
  ECMAScript \<open>Canonicalize\<close> without the \<open>u\<close> flag maps a character to its upper
  case, unless that is several characters or takes a non-ASCII character into ASCII.
  Against the ASCII letters and punctuation of the patterns here, that is the upper
  case of the ASCII letters.
\<close>

definition canonicalize :: "jschar \<Rightarrow> jschar" where
  "canonicalize c = (if 0x61 \<le> c \<and> c \<le> 0x7A then c - 0x20 else c)"

fun lit_ci :: "jsstring \<Rightarrow> (cursor \<Rightarrow> 'a option) \<Rightarrow> cursor \<Rightarrow> 'a option" where
  "lit_ci [] k cur = k cur"
| "lit_ci (x # xs) k cur = chr (\<lambda>c. canonicalize c = canonicalize x) (lit_ci xs k) cur"

text \<open>\<open>p*\<close>: as many as possible first, then fewer.\<close>

fun greedy :: "(jschar \<Rightarrow> bool) \<Rightarrow> (cursor \<Rightarrow> 'a option) \<Rightarrow> cursor \<Rightarrow> 'a option" where
  "greedy p k (b, []) = k (b, [])"
| "greedy p k (b, c # cs) =
     (if p c then (case greedy p k (c # b, cs) of Some r \<Rightarrow> Some r | None \<Rightarrow> k (b, c # cs))
      else k (b, c # cs))"

text \<open>\<open>p*?\<close>: as few as possible first, then more.\<close>

fun lazy :: "(jschar \<Rightarrow> bool) \<Rightarrow> (cursor \<Rightarrow> 'a option) \<Rightarrow> cursor \<Rightarrow> 'a option" where
  "lazy p k (b, []) = k (b, [])"
| "lazy p k (b, c # cs) =
     (case k (b, c # cs) of Some r \<Rightarrow> Some r
      | None \<Rightarrow> if p c then lazy p k (c # b, cs) else None)"

text \<open>\<open>a|b\<close>\<close>

definition alt :: "(cursor \<Rightarrow> 'a option) \<Rightarrow> (cursor \<Rightarrow> 'a option) \<Rightarrow> cursor \<Rightarrow> 'a option" where
  "alt k1 k2 cur = (case k1 cur of Some r \<Rightarrow> Some r | None \<Rightarrow> k2 cur)"

text \<open>\<open>^\<close> and \<open>$\<close> under the \<open>m\<close> flag, and \<open>$\<close> without it.\<close>

definition bol :: "(cursor \<Rightarrow> 'a option) \<Rightarrow> cursor \<Rightarrow> 'a option" where
  "bol k cur = (case fst cur of [] \<Rightarrow> k cur | c # _ \<Rightarrow> if isLineTerminator c then k cur else None)"

definition eol :: "(cursor \<Rightarrow> 'a option) \<Rightarrow> cursor \<Rightarrow> 'a option" where
  "eol k cur = (case snd cur of [] \<Rightarrow> k cur | c # _ \<Rightarrow> if isLineTerminator c then k cur else None)"

definition eoi :: "(cursor \<Rightarrow> 'a option) \<Rightarrow> cursor \<Rightarrow> 'a option" where
  "eoi k cur = (case snd cur of [] \<Rightarrow> k cur | c # _ \<Rightarrow> None)"

text \<open>The leftmost match: the pattern is tried at every position from the cursor on.\<close>

fun search :: "(cursor \<Rightarrow> 'a option) \<Rightarrow> cursor \<Rightarrow> 'a option" where
  "search m (b, []) = m (b, [])"
| "search m (b, c # cs) =
     (case m (b, c # cs) of Some r \<Rightarrow> Some r | None \<Rightarrow> search m (c # b, cs))"

text \<open>The text between two cursors of one string, the second not before the first.\<close>

definition between :: "cursor \<Rightarrow> cursor \<Rightarrow> jsstring" where
  "between c c' = rev (take (length (fst c') - length (fst c)) (fst c'))"

subsection \<open>The compatibility directive\<close>

text \<open>
  \<^verbatim>\<open>
  processed = processed.replace(
      /\\pgfplotsset\s*\{\s*compat\s*=\s*[\d.]+\s*\}/,
      '\\pgfplotsset{compat=1.16}'
  );
  \<close>
  Without the \<open>g\<close> flag the first match is replaced, and only that one.
\<close>

definition isDigitOrDot :: "jschar \<Rightarrow> bool" where
  "isDigitOrDot c \<longleftrightarrow> (0x30 \<le> c \<and> c \<le> 0x39) \<or> c = 0x2E"

definition compat_regex :: "cursor \<Rightarrow> (cursor \<times> cursor) option" where
  "compat_regex c0 =
     lit (BACKSLASH # ascii ''pgfplotsset'') (greedy isWhiteSpace (lit (ascii ''{'')
       (greedy isWhiteSpace (lit (ascii ''compat'') (greedy isWhiteSpace (lit (ascii ''='')
         (greedy isWhiteSpace (chr isDigitOrDot (greedy isDigitOrDot (greedy isWhiteSpace
           (lit (ascii ''}'') (\<lambda>c1. Some (c0, c1))))))))))))) c0"

definition downgrade_compat :: "jsstring \<Rightarrow> jsstring" where
  "downgrade_compat processed =
     (case search compat_regex ([], processed) of
        None \<Rightarrow> processed
      | Some (c0, c1) \<Rightarrow> rev (fst c0) @ (BACKSLASH # ascii ''pgfplotsset{compat=1.16}'') @ snd c1)"


subsection \<open>The fenced blocks\<close>

text \<open>
  \<^verbatim>\<open>
  private static readonly TIKZ_BLOCK_REGEX = /^```tikz\s*$([\s\S]*?)^```\s*$/mig;
  \<close>
  A match is given by four cursors: its start, the two ends of the capture group, and
  its end.
\<close>

definition anyChar :: "jschar \<Rightarrow> bool" where
  "anyChar c = True"

type_synonym block_match = "cursor \<times> cursor \<times> cursor \<times> cursor"

definition TIKZ_BLOCK_REGEX :: "cursor \<Rightarrow> block_match option" where
  "TIKZ_BLOCK_REGEX c0 =
     bol (lit_ci (ascii ''```tikz'') (greedy isWhiteSpace (eol
       (\<lambda>c1. lazy anyChar
          (\<lambda>c2. bol (lit_ci (ascii ''```'') (greedy isWhiteSpace (eol
             (\<lambda>c3. Some (c0, c1, c2, c3))))) c2) c1)))) c0"

definition match_end :: "block_match \<Rightarrow> cursor" where
  "match_end m = (case m of (c0, c1, c2, c3) \<Rightarrow> c3)"

text \<open>
  A match ends after the cursor it was tried at, so the loop over all matches ends.
\<close>

definition shrinks :: "('a \<Rightarrow> cursor) \<Rightarrow> (cursor \<Rightarrow> 'a option) \<Rightarrow> bool" where
  "shrinks e k \<longleftrightarrow> (\<forall>cur r. k cur = Some r \<longrightarrow> length (snd (e r)) \<le> length (snd cur))"

definition shrinks1 :: "('a \<Rightarrow> cursor) \<Rightarrow> (cursor \<Rightarrow> 'a option) \<Rightarrow> bool" where
  "shrinks1 e k \<longleftrightarrow> (\<forall>cur r. k cur = Some r \<longrightarrow> length (snd (e r)) < length (snd cur))"

lemma shrinksD: "shrinks e k \<Longrightarrow> k cur = Some r \<Longrightarrow> length (snd (e r)) \<le> length (snd cur)"
  unfolding shrinks_def by blast

lemma shrinks1D: "shrinks1 e k \<Longrightarrow> k cur = Some r \<Longrightarrow> length (snd (e r)) < length (snd cur)"
  unfolding shrinks1_def by blast

lemma shrinksI: "(\<And>cur r. k cur = Some r \<Longrightarrow> length (snd (e r)) \<le> length (snd cur)) \<Longrightarrow> shrinks e k"
  unfolding shrinks_def by blast

lemma shrinks1I: "(\<And>cur r. k cur = Some r \<Longrightarrow> length (snd (e r)) < length (snd cur)) \<Longrightarrow> shrinks1 e k"
  unfolding shrinks1_def by blast

lemma shrinks1_shrinks: "shrinks1 e k \<Longrightarrow> shrinks e k"
  by (rule shrinksI) (drule shrinks1D, assumption, simp)

lemma shrinks1_chr:
  assumes "shrinks e k"
  shows "shrinks1 e (chr p k)"
proof (rule shrinks1I)
  fix cur r
  assume c: "chr p k cur = Some r"
  obtain b rest where cur: "cur = (b, rest)" by (cases cur)
  with c obtain c' cs where "rest = c' # cs" "k (c' # b, cs) = Some r"
    by (cases rest) (auto split: if_splits)
  with shrinksD [OF assms, of "(c' # b, cs)" r] cur
  show "length (snd (e r)) < length (snd cur)" by simp
qed

lemma shrinks_lit_ci: "shrinks e k \<Longrightarrow> shrinks e (lit_ci s k)"
proof (induction s)
  case Nil
  then show ?case by (intro shrinksI) (auto dest: shrinksD)
next
  case (Cons x xs)
  then have "shrinks1 e (chr (\<lambda>c. canonicalize c = canonicalize x) (lit_ci xs k))"
    by (intro shrinks1_chr) simp
  then show ?case by (intro shrinksI) (auto dest: shrinks1D intro: less_imp_le)
qed

lemma shrinks1_lit_ci:
  assumes "shrinks e k" "s \<noteq> []"
  shows "shrinks1 e (lit_ci s k)"
proof -
  from assms(2) obtain x xs where s: "s = x # xs" by (cases s) auto
  have "shrinks1 e (chr (\<lambda>c. canonicalize c = canonicalize x) (lit_ci xs k))"
    by (intro shrinks1_chr shrinks_lit_ci assms(1))
  then show ?thesis unfolding s by (intro shrinks1I) (auto dest: shrinks1D)
qed

lemma greedy_shrinks_aux:
  assumes "shrinks e k"
  shows "greedy p k (b, rest) = Some r \<Longrightarrow> length (snd (e r)) \<le> length rest"
proof (induction rest arbitrary: b)
  case Nil
  then have "k (b, []) = Some r" by simp
  from shrinksD [OF assms this] show ?case by simp
next
  case (Cons c cs)
  show ?case
  proof (cases "p c \<and> greedy p k (c # b, cs) \<noteq> None")
    case True
    with Cons.prems have "greedy p k (c # b, cs) = Some r" by auto
    from Cons.IH [OF this] show ?thesis by simp
  next
    case False
    with Cons.prems have "k (b, c # cs) = Some r" by (auto split: if_splits option.splits)
    from shrinksD [OF assms this] show ?thesis by simp
  qed
qed

lemma shrinks_greedy: "shrinks e k \<Longrightarrow> shrinks e (greedy p k)"
proof (rule shrinksI)
  fix cur r
  assume "shrinks e k" "greedy p k cur = Some r"
  then show "length (snd (e r)) \<le> length (snd cur)"
    using greedy_shrinks_aux [of e k p "fst cur" "snd cur" r] by simp
qed

lemma lazy_shrinks_aux:
  assumes "shrinks e k"
  shows "lazy p k (b, rest) = Some r \<Longrightarrow> length (snd (e r)) \<le> length rest"
proof (induction rest arbitrary: b)
  case Nil
  then have "k (b, []) = Some r" by simp
  from shrinksD [OF assms this] show ?case by simp
next
  case (Cons c cs)
  show ?case
  proof (cases "k (b, c # cs)")
    case None
    with Cons.prems have "lazy p k (c # b, cs) = Some r" by (auto split: if_splits)
    from Cons.IH [OF this] show ?thesis by simp
  next
    case (Some r')
    with Cons.prems have "k (b, c # cs) = Some r" by simp
    from shrinksD [OF assms this] show ?thesis by simp
  qed
qed

lemma shrinks_lazy: "shrinks e k \<Longrightarrow> shrinks e (lazy p k)"
proof (rule shrinksI)
  fix cur r
  assume "shrinks e k" "lazy p k cur = Some r"
  then show "length (snd (e r)) \<le> length (snd cur)"
    using lazy_shrinks_aux [of e k p "fst cur" "snd cur" r] by simp
qed

lemma shrinks_bol: "shrinks e k \<Longrightarrow> shrinks e (bol k)"
  by (rule shrinksI) (auto simp: bol_def dest: shrinksD split: list.splits if_splits)

lemma shrinks1_bol: "shrinks1 e k \<Longrightarrow> shrinks1 e (bol k)"
  by (rule shrinks1I) (auto simp: bol_def dest: shrinks1D split: list.splits if_splits)

lemma shrinks_eol: "shrinks e k \<Longrightarrow> shrinks e (eol k)"
  by (rule shrinksI) (auto simp: eol_def dest: shrinksD split: list.splits if_splits)

lemma shrinks_diag: "(\<And>c. shrinks e (F c)) \<Longrightarrow> shrinks e (\<lambda>c. F c c)"
  by (rule shrinksI) (auto dest: shrinksD)

lemma search_shrinks_aux:
  assumes "shrinks1 e m"
  shows "search m (b, rest) = Some r \<Longrightarrow> length (snd (e r)) < length rest"
proof (induction rest arbitrary: b)
  case Nil
  then have "m (b, []) = Some r" by simp
  from shrinks1D [OF assms this] show ?case by simp
next
  case (Cons c cs)
  show ?case
  proof (cases "m (b, c # cs)")
    case None
    with Cons.prems have "search m (c # b, cs) = Some r" by auto
    from Cons.IH [OF this] show ?thesis by simp
  next
    case (Some r')
    with Cons.prems have "m (b, c # cs) = Some r" by simp
    from shrinks1D [OF assms this] show ?thesis by simp
  qed
qed

lemma shrinks1_search: "shrinks1 e m \<Longrightarrow> shrinks1 e (search m)"
proof (rule shrinks1I)
  fix cur r
  assume "shrinks1 e m" "search m cur = Some r"
  then show "length (snd (e r)) < length (snd cur)"
    using search_shrinks_aux [of e m "fst cur" "snd cur" r] by simp
qed

lemma closing_fence_shrinks:
  "shrinks match_end (bol (lit_ci (ascii ''```'') (greedy isWhiteSpace (eol
             (\<lambda>c3. Some (c0, c1, c2, c3))))))"
proof -
  have "shrinks match_end (\<lambda>c3. Some (c0, c1, c2, c3))"
    by (rule shrinksI) (auto simp: match_end_def)
  then show ?thesis
    by (intro shrinks_bol shrinks_lit_ci shrinks_greedy shrinks_eol)
qed

lemma block_body_shrinks:
  "shrinks match_end (\<lambda>c1. lazy anyChar
          (\<lambda>c2. bol (lit_ci (ascii ''```'') (greedy isWhiteSpace (eol
             (\<lambda>c3. Some (c0, c1, c2, c3))))) c2) c1)"
proof (rule shrinksI)
  fix cur r
  let ?k = "\<lambda>c1 c2. bol (lit_ci (ascii ''```'') (greedy isWhiteSpace (eol
             (\<lambda>c3. Some (c0, c1, c2, c3))))) c2"
  assume a: "lazy anyChar (?k cur) cur = Some r"
  have "shrinks match_end (?k cur)"
    by (rule shrinksI) (erule shrinksD [OF closing_fence_shrinks])
  from shrinksD [OF shrinks_lazy [OF this] a]
  show "length (snd (match_end r)) \<le> length (snd cur)" .
qed

lemma TIKZ_BLOCK_REGEX_shrinks1: "shrinks1 match_end TIKZ_BLOCK_REGEX"
proof (rule shrinks1I)
  fix cur r
  assume a: "TIKZ_BLOCK_REGEX cur = Some r"
  have "ascii ''```tikz'' \<noteq> []" by (simp add: ascii_def)
  then have "shrinks1 match_end (bol (lit_ci (ascii ''```tikz'') (greedy isWhiteSpace (eol
       (\<lambda>c1. lazy anyChar
          (\<lambda>c2. bol (lit_ci (ascii ''```'') (greedy isWhiteSpace (eol
             (\<lambda>c3. Some (cur, c1, c2, c3))))) c2) c1)))))"
    by (intro shrinks1_bol shrinks1_lit_ci shrinks_greedy shrinks_eol block_body_shrinks)
  from shrinks1D [OF this] a show "length (snd (match_end r)) < length (snd cur)"
    unfolding TIKZ_BLOCK_REGEX_def by blast
qed

lemma search_TIKZ_BLOCK_REGEX_advances:
  "search TIKZ_BLOCK_REGEX cur = Some m \<Longrightarrow> length (snd (match_end m)) < length (snd cur)"
  by (rule shrinks1D [OF shrinks1_search [OF TIKZ_BLOCK_REGEX_shrinks1]])

text \<open>
  \<^verbatim>\<open>
  DocumentParser.TIKZ_BLOCK_REGEX.lastIndex = 0;
  while ((match = DocumentParser.TIKZ_BLOCK_REGEX.exec(text)) !== null) { ... }
  \<close>
  Under the \<open>g\<close> flag each \<open>exec\<close> searches from the end of the last match.
\<close>

function exec_all :: "cursor \<Rightarrow> block_match list" where
  "exec_all cur =
     (case search TIKZ_BLOCK_REGEX cur of
        None \<Rightarrow> []
      | Some m \<Rightarrow> m # exec_all (match_end m))"
  by pat_completeness auto
termination
proof (relation "measure (\<lambda>cur. length (snd cur))")
  show "wf (measure (\<lambda>cur. length (snd cur)))" by simp
next
  fix cur :: cursor and m
  assume "search TIKZ_BLOCK_REGEX cur = Some m"
  then show "(match_end m, cur) \<in> measure (\<lambda>cur. length (snd cur))"
    by (simp add: search_TIKZ_BLOCK_REGEX_advances)
qed

declare exec_all.simps [simp del]

lemma exec_all_None: "search TIKZ_BLOCK_REGEX cur = None \<Longrightarrow> exec_all cur = []"
  by (subst exec_all.simps) simp

lemma exec_all_Some:
  "search TIKZ_BLOCK_REGEX cur = Some m \<Longrightarrow> exec_all cur = m # exec_all (match_end m)"
  by (subst exec_all.simps) simp




section \<open>The block extractor\<close>

text \<open>
  \<^verbatim>\<open>
  export class TikzBlock {
      readonly id: string; readonly source: string; readonly hash: string;
      readonly range: vscode.Range; readonly lineNumber: number;
      constructor(source: string, range: vscode.Range) {
          this.id = this.generateId();
          this.source = source;
          this.hash = generateHash(source.trim());
          this.range = range;
          this.lineNumber = range.start.line;
      }
  }
  \<close>
  The \<open>id\<close> is drawn from the clock and the random generator and is left out. The
  hash function (SHA-256 in hexadecimal) is a parameter. The field \<open>hash\<close> is named
  \<open>block_hash\<close> here, \<open>hash\<close> being the field of a cache entry.
\<close>

type_synonym position = "nat \<times> nat"

record TikzBlock =
  source :: jsstring
  block_hash :: jsstring
  range :: "position \<times> position"
  lineNumber :: nat

definition new_TikzBlock ::
  "(jsstring \<Rightarrow> jsstring) \<Rightarrow> jsstring \<Rightarrow> position \<times> position \<Rightarrow> TikzBlock" where
  "new_TikzBlock generateHash src rng =
     \<lparr>source = src, block_hash = generateHash (trim src), range = rng,
      lineNumber = fst (fst rng)\<rparr>"

text \<open>
  A \<open>vscode.TextDocument\<close>: its text, its identity, and its map from offsets to
  positions (line and character), which is the editor's.
\<close>

record TextDocument =
  getText :: jsstring
  uri :: jsstring
  positionAt :: "int \<Rightarrow> position"

text \<open>\<open>s.indexOf(c)\<close> and \<open>s.lastIndexOf(t)\<close>: \<open>-1\<close> when there is no occurrence.\<close>

definition indexOf :: "jsstring \<Rightarrow> jschar \<Rightarrow> int" where
  "indexOf s c = (if c \<in> set s then int (length (takeWhile (\<lambda>x. x \<noteq> c) s)) else - 1)"

definition lastIndexOf :: "jsstring \<Rightarrow> jsstring \<Rightarrow> int" where
  "lastIndexOf s t =
     (case filter (\<lambda>i. take (length t) (drop i s) = t) (rev [0..<Suc (length s)]) of
        [] \<Rightarrow> - 1
      | i # _ \<Rightarrow> int i)"

text \<open>
  \<^verbatim>\<open>
  const fullMatch = match[0];
  const codeContent = match[1];
  const startOffset = match.index;
  const openingFenceEnd = startOffset + fullMatch.indexOf('\n') + 1;
  const startPosition = document.positionAt(openingFenceEnd);
  const closingFenceStart = startOffset + fullMatch.lastIndexOf('\n```');
  const endPosition = document.positionAt(closingFenceStart);
  const range = new vscode.Range(startPosition, endPosition);
  const block = new TikzBlock(codeContent, range);
  blocks.push(block);
  \<close>
\<close>

definition block_of_match ::
  "(jsstring \<Rightarrow> jsstring) \<Rightarrow> TextDocument \<Rightarrow> block_match \<Rightarrow> TikzBlock" where
  "block_of_match generateHash document m =
     (case m of (c0, c1, c2, c3) \<Rightarrow>
        let fullMatch = between c0 c3;
            codeContent = between c1 c2;
            startOffset = int (length (fst c0));
            openingFenceEnd = startOffset + indexOf fullMatch LF + 1;
            startPosition = positionAt document openingFenceEnd;
            closingFenceStart = startOffset + lastIndexOf fullMatch (LF # ascii ''```'');
            endPosition = positionAt document closingFenceStart
        in new_TikzBlock generateHash codeContent (startPosition, endPosition))"

definition parse :: "(jsstring \<Rightarrow> jsstring) \<Rightarrow> TextDocument \<Rightarrow> TikzBlock list" where
  "parse generateHash document =
     map (block_of_match generateHash document) (exec_all ([], getText document))"


section \<open>The preview manager\<close>

subsection \<open>Thrown values and error messages\<close>

text \<open>
  A promise may reject with any value. The preview manager reads a rejection in one
  place, \<open>_extractTexError\<close>, through \<open>err?.message || String(err)\<close>, and then calls
  \<open>match\<close>, \<open>includes\<close> and \<open>slice\<close> on the result, which are methods of strings.
  A value for which the expression gives a string is an \<open>Error_object\<close>:
  \<open>err_message\<close> is its message when that is a non-empty string, and \<open>err_name\<close> is
  \<open>String(err)\<close> when it is not, which for an \<open>Error\<close> with an empty message is its
  name. Any other value is an \<open>Odd_value\<close>: its message is truthy and no string, or it
  has no conversion to a string; then \<open>_extractTexError\<close> throws.
\<close>

record JsError =
  err_name :: jsstring
  err_message :: jsstring

datatype thrown_value = Error_object JsError | Odd_value

definition new_Error :: "jsstring \<Rightarrow> thrown_value" where
  "new_Error msg = Error_object \<lparr>err_name = ascii ''Error'', err_message = msg\<rparr>"

definition message_or_string :: "JsError \<Rightarrow> jsstring" where
  "message_or_string err = (if err_message err \<noteq> [] then err_message err else err_name err)"

text \<open>
  The value thrown for a cache-manager error; \<open>set\<close> only ever throws a \<open>TypeError\<close>.
\<close>

fun thrown :: "cm_error \<Rightarrow> thrown_value" where
  "thrown (TypeError msg) = Error_object \<lparr>err_name = ascii ''TypeError'', err_message = msg\<rparr>"
| "thrown Not_an_entry = Error_object \<lparr>err_name = ascii ''TypeError'', err_message = []\<rparr>"

text \<open>
  \<^verbatim>\<open>const texErrorMatch = msg.match(/!(.*?)(?:\n|$)/);\<close>
  No flag: \<open>.\<close> is any character but a line terminator, \<open>$\<close> the end of the text.
  The result is the capture group of the leftmost match.
\<close>

definition TEX_ERROR_REGEX :: "cursor \<Rightarrow> jsstring option" where
  "TEX_ERROR_REGEX c0 =
     lit (ascii ''!'')
       (\<lambda>c1. lazy (\<lambda>c. \<not> isLineTerminator c)
          (\<lambda>c2. alt (lit [LF] (\<lambda>c3. Some (between c1 c2)))
                     (eoi (\<lambda>c3. Some (between c1 c2))) c2) c1) c0"

text \<open>
  \<^verbatim>\<open>
  private _extractTexError(err: any): string {
      const msg = err?.message || String(err);
      const texErrorMatch = msg.match(/!(.*?)(?:\n|$)/);
      if (texErrorMatch) {
          return `TeX compilation failed: ${texErrorMatch[1].trim()}`;
      }
      if (msg.includes('timed out')) { return msg; }
      return `TeX compilation failed. Check your LaTeX syntax.\n${msg.slice(0, 300)}`;
  }
  \<close>
  \<open>tex_error_text\<close> is the function from its second line on, for a string \<open>msg\<close>;
  \<open>None\<close> is a throw.
\<close>

definition tex_error_text :: "jsstring \<Rightarrow> jsstring" where
  "tex_error_text msg =
     (case search TEX_ERROR_REGEX ([], msg) of
        Some group1 \<Rightarrow> ascii ''TeX compilation failed: '' @ trim group1
      | None \<Rightarrow>
          if str_includes msg (ascii ''timed out'') then msg
          else ascii ''TeX compilation failed. Check your LaTeX syntax.'' @ [LF] @ take 300 msg)"

fun extractTexError :: "thrown_value \<Rightarrow> jsstring option" where
  "extractTexError (Error_object err) = Some (tex_error_text (message_or_string err))"
| "extractTexError Odd_value = None"

subsection \<open>State and collaborators\<close>

text \<open>
  A render result of the memory cache, \<open>{ svg }\<close> or \<open>{ error }\<close>.
\<close>

datatype render_result = Svg jsstring | Failed jsstring

text \<open>
  The collaborators of the preview manager. \<open>postProcessSvg\<close> runs the SVGO library;
  \<open>None\<close> is a throw. \<open>renderTimeout\<close> is the setting, a whole number of
  milliseconds (its documented range is 1000 to 60000), with 0 for a setting that is
  falsy. \<open>clock\<close> is the reading of \<open>Date.now()\<close> when the render request with the
  given ticket builds its cache entry. \<open>large_number_text\<close> is the text of a whole
  number from \<open>10^21\<close> on in a template literal, where the runtime writes an exponent;
  the model does not compute it.
\<close>

record collaborators =
  generateHash :: "jsstring \<Rightarrow> jsstring"
  postProcessSvg :: "jsstring \<Rightarrow> bool \<Rightarrow> jsstring option"
  renderTimeout :: nat
  clock :: "nat \<Rightarrow> int"
  large_number_text :: "nat \<Rightarrow> jsstring"

text \<open>
  The fields of the preview manager that the claims are about, and two records kept
  for observation: the engine calls made so far, each with the hash of the render
  request that made it and the source text passed to the engine, oldest first, and the
  documents nudged so far.
\<close>

record PreviewManager =
  svgCache :: "jsstring \<rightharpoonup> render_result"
  globalState :: memento
  isRendering :: bool
  tikzjaxLoaded :: bool
  engine_calls :: "(jsstring \<times> jsstring) list"
  nudges :: "jsstring list"

definition initial :: PreviewManager where
  "initial = \<lparr>svgCache = Map.empty, globalState = Map.empty, isRendering = False,
              tikzjaxLoaded = False, engine_calls = [], nudges = []\<rparr>"

text \<open>
  \<^verbatim>\<open>
  private _applyPostProcessing(svg: string, darkMode: boolean): string {
      try { return postProcessSvg(svg, darkMode); } catch { return svg; }
  }
  \<close>
\<close>

definition applyPostProcessing :: "collaborators \<Rightarrow> jsstring \<Rightarrow> bool \<Rightarrow> jsstring" where
  "applyPostProcessing env s darkMode =
     (case postProcessSvg env s darkMode of Some r \<Rightarrow> r | None \<Rightarrow> s)"

text \<open>
  The text of a whole number in a template literal: its decimal numeral below
  \<open>10^21\<close>.
\<close>

fun decimal :: "nat \<Rightarrow> jsstring" where
  "decimal n = (if n < 10 then [of_nat (48 + n)] else decimal (n div 10) @ [of_nat (48 + n mod 10)])"

declare decimal.simps [simp del]

definition number_text :: "collaborators \<Rightarrow> nat \<Rightarrow> jsstring" where
  "number_text env n = (if n < 10 ^ 21 then decimal n else large_number_text env n)"

text \<open>
  \<^verbatim>\<open>
  const timeout = this._config.renderTimeout || 15000;
  ... reject(new Error(`Render timed out after ${timeout}ms`)) ...
  \<close>
\<close>

definition timeout_error :: "collaborators \<Rightarrow> thrown_value" where
  "timeout_error env =
     (let timeout = (if renderTimeout env = 0 then 15000 else renderTimeout env)
      in new_Error (ascii ''Render timed out after '' @ number_text env timeout @ ascii ''ms''))"

text \<open>
  \<^verbatim>\<open>
  let processed = preprocessSource(source);
  processed = processed.replace(/\\pgfplotsset\s*\{\s*compat\s*=\s*[\d.]+\s*\}/,
      '\\pgfplotsset{compat=1.16}');
  const svgPromise = tex2svg(processed, { ... });
  \<close>
  The text passed to the engine.
\<close>

definition engine_source :: "jsstring \<Rightarrow> jsstring" where
  "engine_source src = downgrade_compat (preprocessSource src)"

text \<open>The nudge is the editor's; the model records the document nudged.\<close>

definition nudgeDocument :: "TextDocument \<Rightarrow> PreviewManager \<Rightarrow> PreviewManager" where
  "nudgeDocument document s = s\<lparr>nudges := nudges s @ [uri document]\<rparr>"

section \<open>The event loop\<close>

text \<open>
  The runtime is single-threaded: an \<open>async\<close> function runs until an \<open>await\<close>, and
  what follows the \<open>await\<close> runs later, after the awaited promise has settled. In
  between, anything else that is ready may run. The model below is a transition
  system: a state holds the preview manager, the theme, the steps appended to the
  render chain, the calls of \<open>renderDocument\<close> and \<open>retryBlock\<close> that are suspended at
  an \<open>await\<close>, and a trace of events for observation. An action is a call from
  outside, a change of the theme, the resumption of something suspended, or the
  settling of the engine, of the import of the engine or of a timer; an action that is
  not enabled gives \<open>None\<close>. Any sequence of enabled actions is a possible run, which
  covers every interleaving the runtime allows. A call of the cache manager is taken as
  one step, at the call.
\<close>

subsection \<open>The render chain\<close>

text \<open>
  \<^verbatim>\<open>
  private async _renderSingleBlock(hash: string, source: string): Promise<void> {
      this._renderChain = this._renderChain.then(async () => {
          try {
              const svg = await this._renderTikzToSvg(source);
              const darkMode = this._isDarkMode();
              const processed = this._applyPostProcessing(svg, darkMode);
              this._svgCache.set(hash, { svg: processed });
              const entry = new CacheEntry(hash, svg);
              await this._cacheManager.set(hash, entry);
          } catch (err: any) {
              const errorMsg = this._extractTexError(err);
              this._svgCache.set(hash, { error: errorMsg });
          }
      });
      await this._renderChain;
  }
  private async _renderTikzToSvg(source: string): Promise<string> {
      await this._ensureTikzjaxLoaded();
      const tex2svg = (await import('node-tikzjax')).default;
      ... processed, timeout ...
      const svgPromise = tex2svg(processed, { ... });
      const timeoutPromise = new Promise<never>((_resolve, reject) => {
          setTimeout(() => reject(new Error(`Render timed out after ${timeout}ms`)), timeout);
      });
      const svg = await Promise.race([svgPromise, timeoutPromise]);
      return svg;
  }
  \<close>
  Every call of \<open>_renderSingleBlock\<close> appends one step; its ticket is its position
  in the order of appending. The step begins when the promise before it has resolved,
  that is when the step before it has finished; the caller awaits the promise of its own
  step. A step is queued, or awaits the loading of the engine, or awaits the race of the
  engine call with the timer, or awaits the cache manager's \<open>set\<close>, or has finished.
  When \<open>_extractTexError\<close> throws in the \<open>catch\<close>, the promise of the step rejects:
  the step is broken. The function given to \<open>then\<close> is not called when the promise
  before has rejected, and the new promise rejects too: every later step is passed
  over and is broken as well.
\<close>

datatype step_pc = Queued | Loading | Racing | Persisting "cm_error + unit" | Finished | Broken

record chain_step =
  step_hash :: jsstring
  step_source :: jsstring
  step_pc :: step_pc

datatype event =
    Engine_started nat
  | Engine_finished nat
  | Timed_out nat
  | Step_finished nat
  | Caller_resumed nat

subsection \<open>Suspended calls\<close>

text \<open>
  \<^verbatim>\<open>
  async renderDocument(document: vscode.TextDocument): Promise<void> {
      if (this._isRendering) { return; }
      const blocks = this._parser.parse(document);
      if (blocks.length === 0) { return; }
      this._isRendering = true;
      try {
          for (const block of blocks) {
              if (this._svgCache.has(block.hash)) { continue; }
              const cached = await this._cacheManager.get(block.hash);
              if (cached) {
                  const darkMode = this._isDarkMode();
                  const processed = this._applyPostProcessing(cached.svg, darkMode);
                  this._svgCache.set(block.hash, { svg: processed });
                  await this._nudgeDocument(document);
                  continue;
              }
              await this._renderSingleBlock(block.hash, block.source);
              await this._nudgeDocument(document);
          }
      } finally { this._isRendering = false; }
  }
  \<close>
  A call of \<open>renderDocument\<close> is suspended at the \<open>await\<close> of the cache manager's
  \<open>get\<close> (whose outcome is known), of \<open>_renderSingleBlock\<close> (for a ticket) or of the
  nudge; the blocks are those still to be done.
\<close>

datatype pass_pc =
    Awaiting_get "cm_error + CacheEntry option" TikzBlock "TikzBlock list"
  | Awaiting_render nat "TikzBlock list"
  | Awaiting_nudge "TikzBlock list"

record pass =
  pass_document :: TextDocument
  pass_pc :: pass_pc

text \<open>
  \<^verbatim>\<open>
  async retryBlock(hash: string, source: string, document: vscode.TextDocument) {
      this._svgCache.delete(hash);
      await this._cacheManager.invalidate(hash);
      await this._renderSingleBlock(hash, source);
      await this._nudgeDocument(document);
  }
  \<close>
\<close>

datatype retry_pc =
    Awaiting_invalidate "cm_error + unit"
  | Retry_awaiting_render nat
  | Retry_awaiting_nudge

record retry =
  retry_hash :: jsstring
  retry_source :: jsstring
  retry_document :: TextDocument
  retry_pc :: retry_pc

text \<open>
  \<open>dark_theme\<close> is what \<open>_isDarkMode()\<close> returns; \<open>engine_running\<close> holds the
  tickets whose engine call has not settled.
\<close>

record system =
  pm :: PreviewManager
  dark_theme :: bool
  steps :: "chain_step list"
  engine_running :: "nat list"
  passes :: "pass list"
  retries :: "retry list"
  trace :: "event list"

definition system0 :: system where
  "system0 = \<lparr>pm = initial, dark_theme = False, steps = [], engine_running = [], passes = [],
               retries = [], trace = []\<rparr>"

definition pc_of :: "system \<Rightarrow> nat \<Rightarrow> step_pc" where
  "pc_of s t = step_pc (steps s ! t)"

definition set_pc :: "nat \<Rightarrow> step_pc \<Rightarrow> system \<Rightarrow> system" where
  "set_pc t pc s = s\<lparr>steps := (steps s)[t := (steps s ! t)\<lparr>step_pc := pc\<rparr>]\<rparr>"

definition log :: "event \<Rightarrow> system \<Rightarrow> system" where
  "log e s = s\<lparr>trace := e # trace s\<rparr>"

definition with_pm :: "(PreviewManager \<Rightarrow> PreviewManager) \<Rightarrow> system \<Rightarrow> system" where
  "with_pm f s = s\<lparr>pm := f (pm s)\<rparr>"

text \<open>Appending a step to the chain; the result is the ticket and the new state.\<close>

definition append_step :: "jsstring \<Rightarrow> jsstring \<Rightarrow> system \<Rightarrow> nat \<times> system" where
  "append_step h src s =
     (length (steps s),
      s\<lparr>steps := steps s @ [\<lparr>step_hash = h, step_source = src, step_pc = Queued\<rparr>]\<rparr>)"

text \<open>
  The loop of \<open>renderDocument\<close> from the blocks still to be done up to its next
  \<open>await\<close>, or to its end, where \<open>finally\<close> clears the flag.
\<close>

fun advance_pass :: "TextDocument \<Rightarrow> TikzBlock list \<Rightarrow> system \<Rightarrow> system" where
  "advance_pass document [] s = with_pm (\<lambda>p. p\<lparr>isRendering := False\<rparr>) s"
| "advance_pass document (block # blocks) s =
     (if svgCache (pm s) (block_hash block) \<noteq> None then advance_pass document blocks s
      else
        case cm_get (block_hash block) (globalState (pm s)) of
          (r, m) \<Rightarrow>
            (with_pm (\<lambda>p. p\<lparr>globalState := m\<rparr>) s)
              \<lparr>passes := passes s @
                 [\<lparr>pass_document = document, pass_pc = Awaiting_get r block blocks\<rparr>]\<rparr>)"

text \<open>Removing the \<open>i\<close>-th element of a list.\<close>

definition remove_nth :: "nat \<Rightarrow> 'a list \<Rightarrow> 'a list" where
  "remove_nth i xs = take i xs @ drop (Suc i) xs"

subsection \<open>Actions\<close>

datatype action =
    Call_renderDocument TextDocument
  | Call_retryBlock jsstring jsstring TextDocument
  | Call_clearMemoryCache
  | Call_resetEngine
  | Theme_changes bool
  | Resume_pass nat
  | Nudge_rejects nat
  | Resume_retry nat
  | Retry_nudge_rejects nat
  | Step_begins nat
  | Step_passed_over nat
  | Import_rejects nat thrown_value
  | Engine_invoked nat
  | Engine_resolves nat jsstring
  | Engine_rejects nat thrown_value
  | Timer_fires nat
  | Set_returns nat

text \<open>
  What the step with ticket \<open>t\<close> does when the race is won by the engine's answer,
  and what it does in its \<open>catch\<close>: that is where it goes when the race is lost to the
  engine's rejection or to the timer, when the import of the engine module rejects,
  before any engine call, and when the cache manager's \<open>set\<close> throws.
\<close>

definition race_won :: "collaborators \<Rightarrow> nat \<Rightarrow> jsstring \<Rightarrow> system \<Rightarrow> system" where
  "race_won env t svg_text s =
     (let h = step_hash (steps s ! t);
          processed = applyPostProcessing env svg_text (dark_theme s);
          entry = new_CacheEntry_now (clock env t) h svg_text;
          p1 = (pm s)\<lparr>svgCache := (svgCache (pm s))(h \<mapsto> Svg processed)\<rparr>
      in case cm_set h entry (globalState p1) of
           (r, m) \<Rightarrow> set_pc t (Persisting r) (s\<lparr>pm := p1\<lparr>globalState := m\<rparr>\<rparr>))"

definition step_fails :: "nat \<Rightarrow> thrown_value \<Rightarrow> system \<Rightarrow> system" where
  "step_fails t err s =
     (let h = step_hash (steps s ! t) in
      case extractTexError err of
        Some errorMsg \<Rightarrow>
          log (Step_finished t) (set_pc t Finished
            (with_pm (\<lambda>p. p\<lparr>svgCache := (svgCache p)(h \<mapsto> Failed errorMsg)\<rparr>) s))
      | None \<Rightarrow> set_pc t Broken s)"

text \<open>
  The resumption of a suspended \<open>renderDocument\<close>: after \<open>get\<close>, with the error
  thrown through \<open>finally\<close>, or with the entry found, or with none and the block sent
  to the chain; after the render, which needs the caller's own step to have finished,
  or to be broken, and then the loop is left through \<open>finally\<close>; after the nudge, with
  the next turn of the loop.
\<close>

definition resume_pass :: "collaborators \<Rightarrow> nat \<Rightarrow> pass \<Rightarrow> system \<Rightarrow> system option" where
  "resume_pass env i p s =
     (let document = pass_document p; s0 = s\<lparr>passes := remove_nth i (passes s)\<rparr> in
      case pass_pc p of
        Awaiting_get (Inl e) block blocks \<Rightarrow>
          Some (with_pm (\<lambda>q. q\<lparr>isRendering := False\<rparr>) s0)
      | Awaiting_get (Inr (Some cached)) block blocks \<Rightarrow>
          Some ((with_pm (\<lambda>q. nudgeDocument document
                  (q\<lparr>svgCache := (svgCache q)(block_hash block \<mapsto>
                       Svg (applyPostProcessing env (svg cached) (dark_theme s)))\<rparr>)) s0)
                \<lparr>passes := passes s0 @ [p\<lparr>pass_pc := Awaiting_nudge blocks\<rparr>]\<rparr>)
      | Awaiting_get (Inr None) block blocks \<Rightarrow>
          (case append_step (block_hash block) (source block) s0 of
             (t, s1) \<Rightarrow>
               Some (s1\<lparr>passes := passes s1 @ [p\<lparr>pass_pc := Awaiting_render t blocks\<rparr>]\<rparr>))
      | Awaiting_render t blocks \<Rightarrow>
          (if t < length (steps s) \<and> pc_of s t = Finished
           then Some ((log (Caller_resumed t) (with_pm (nudgeDocument document) s0))
                  \<lparr>passes := passes s0 @ [p\<lparr>pass_pc := Awaiting_nudge blocks\<rparr>]\<rparr>)
           else if t < length (steps s) \<and> pc_of s t = Broken
           then Some (with_pm (\<lambda>q. q\<lparr>isRendering := False\<rparr>) s0)
           else None)
      | Awaiting_nudge blocks \<Rightarrow> Some (advance_pass document blocks s0))"

text \<open>The nudge that a suspended \<open>renderDocument\<close> awaits rejects.\<close>

definition nudge_rejects :: "nat \<Rightarrow> pass \<Rightarrow> system \<Rightarrow> system option" where
  "nudge_rejects i p s =
     (case pass_pc p of
        Awaiting_nudge blocks \<Rightarrow>
          Some (with_pm (\<lambda>q. q\<lparr>isRendering := False\<rparr>) (s\<lparr>passes := remove_nth i (passes s)\<rparr>))
      | _ \<Rightarrow> None)"

definition resume_retry :: "nat \<Rightarrow> retry \<Rightarrow> system \<Rightarrow> system option" where
  "resume_retry i r s =
     (let s0 = s\<lparr>retries := remove_nth i (retries s)\<rparr> in
      case retry_pc r of
        Awaiting_invalidate (Inl e) \<Rightarrow> Some s0
      | Awaiting_invalidate (Inr u) \<Rightarrow>
          (case append_step (retry_hash r) (retry_source r) s0 of
             (t, s1) \<Rightarrow>
               Some (s1\<lparr>retries := retries s1 @ [r\<lparr>retry_pc := Retry_awaiting_render t\<rparr>]\<rparr>))
      | Retry_awaiting_render t \<Rightarrow>
          (if t < length (steps s) \<and> pc_of s t = Finished
           then Some ((log (Caller_resumed t) (with_pm (nudgeDocument (retry_document r)) s0))
                  \<lparr>retries := retries s0 @ [r\<lparr>retry_pc := Retry_awaiting_nudge\<rparr>]\<rparr>)
           else if t < length (steps s) \<and> pc_of s t = Broken then Some s0
           else None)
      | Retry_awaiting_nudge \<Rightarrow> Some s0)"

definition retry_nudge_rejects :: "nat \<Rightarrow> retry \<Rightarrow> system \<Rightarrow> system option" where
  "retry_nudge_rejects i r s =
     (case retry_pc r of
        Retry_awaiting_nudge \<Rightarrow> Some (s\<lparr>retries := remove_nth i (retries s)\<rparr>)
      | _ \<Rightarrow> None)"

text \<open>The engine call of step \<open>t\<close> settles: nobody waits for it any more, or the race is decided.\<close>

definition engine_settles :: "nat \<Rightarrow> (system \<Rightarrow> system) \<Rightarrow> system \<Rightarrow> system option" where
  "engine_settles t continue s =
     (if t \<in> set (engine_running s) then
        let s1 = log (Engine_finished t) (s\<lparr>engine_running := removeAll t (engine_running s)\<rparr>)
        in Some (if t < length (steps s) \<and> pc_of s t = Racing then continue s1 else s1)
      else None)"

text \<open>
  The import of the engine module may reject at every step that loads it, which covers
  the load promise that \<open>_ensureTikzjaxLoaded\<close> keeps.
\<close>

fun step :: "collaborators \<Rightarrow> action \<Rightarrow> system \<Rightarrow> system option" where
  "step env (Call_renderDocument document) s =
     (if isRendering (pm s) then Some s
      else
        let blocks = parse (generateHash env) document in
        if blocks = [] then Some s
        else Some (advance_pass document blocks (with_pm (\<lambda>p. p\<lparr>isRendering := True\<rparr>) s)))"
| "step env (Call_retryBlock h src document) s =
     (let p1 = (pm s)\<lparr>svgCache := (svgCache (pm s))(h := None)\<rparr> in
      case invalidate h (globalState p1) of
        (r, m) \<Rightarrow>
          Some (s\<lparr>pm := p1\<lparr>globalState := m\<rparr>,
                 retries := retries s @
                   [\<lparr>retry_hash = h, retry_source = src, retry_document = document,
                     retry_pc = Awaiting_invalidate r\<rparr>]\<rparr>))"
| "step env Call_clearMemoryCache s = Some (with_pm (\<lambda>p. p\<lparr>svgCache := Map.empty\<rparr>) s)"
| "step env Call_resetEngine s =
     Some (with_pm (\<lambda>p. p\<lparr>tikzjaxLoaded := False, svgCache := Map.empty\<rparr>) s)"
| "step env (Theme_changes dark) s = Some (s\<lparr>dark_theme := dark\<rparr>)"
| "step env (Resume_pass i) s =
     (if i < length (passes s) then resume_pass env i (passes s ! i) s else None)"
| "step env (Nudge_rejects i) s =
     (if i < length (passes s) then nudge_rejects i (passes s ! i) s else None)"
| "step env (Resume_retry i) s =
     (if i < length (retries s) then resume_retry i (retries s ! i) s else None)"
| "step env (Retry_nudge_rejects i) s =
     (if i < length (retries s) then retry_nudge_rejects i (retries s ! i) s else None)"
| "step env (Step_begins t) s =
     (if t < length (steps s) \<and> pc_of s t = Queued \<and> (t = 0 \<or> pc_of s (t - 1) = Finished)
      then Some (set_pc t Loading s) else None)"
| "step env (Step_passed_over t) s =
     (if t < length (steps s) \<and> pc_of s t = Queued \<and> 0 < t \<and> pc_of s (t - 1) = Broken
      then Some (set_pc t Broken s) else None)"
| "step env (Import_rejects t err) s =
     (if t < length (steps s) \<and> pc_of s t = Loading then Some (step_fails t err s) else None)"
| "step env (Engine_invoked t) s =
     (if t < length (steps s) \<and> pc_of s t = Loading
      then Some (log (Engine_started t) (set_pc t Racing
             ((with_pm (\<lambda>p. p\<lparr>tikzjaxLoaded := True,
                  engine_calls := engine_calls p @
                    [(step_hash (steps s ! t), engine_source (step_source (steps s ! t)))]\<rparr>) s)
              \<lparr>engine_running := t # engine_running s\<rparr>)))
      else None)"
| "step env (Engine_resolves t svg_text) s = engine_settles t (race_won env t svg_text) s"
| "step env (Engine_rejects t err) s = engine_settles t (step_fails t err) s"
| "step env (Timer_fires t) s =
     (if t < length (steps s) \<and> pc_of s t = Racing
      then Some (step_fails t (timeout_error env) (log (Timed_out t) s))
      else None)"
| "step env (Set_returns t) s =
     (if t < length (steps s) then
        case pc_of s t of
          Persisting (Inl e) \<Rightarrow> Some (step_fails t (thrown e) s)
        | Persisting (Inr u) \<Rightarrow> Some (log (Step_finished t) (set_pc t Finished s))
        | _ \<Rightarrow> None
      else None)"

fun run :: "collaborators \<Rightarrow> action list \<Rightarrow> system \<Rightarrow> system option" where
  "run env [] s = Some s"
| "run env (a # as) s = (case step env a s of None \<Rightarrow> None | Some s' \<Rightarrow> run env as s')"

subsection \<open>What a trace must show\<close>

text \<open>
  The trace has the latest event first. When the engine is called for a ticket, every
  earlier ticket's step has finished, and its engine call, if one was made, has settled
  or has timed out, and no engine call of that or a later ticket has been made; and a
  caller is resumed only after the step of its own ticket has finished.
\<close>

fun started_before :: "nat \<Rightarrow> event \<Rightarrow> bool" where
  "started_before t' (Engine_started t) = (t < t')"
| "started_before t' e = True"

fun event_in_order :: "event \<Rightarrow> event list \<Rightarrow> bool" where
  "event_in_order (Engine_started t') older =
     (list_all (\<lambda>t. Step_finished t \<in> set older \<and>
                    (Engine_started t \<in> set older \<longrightarrow>
                       Engine_finished t \<in> set older \<or> Timed_out t \<in> set older)) [0..<t'] \<and>
      list_all (started_before t') older)"
| "event_in_order (Caller_resumed t) older = (Step_finished t \<in> set older)"
| "event_in_order e older = True"

fun chain_order :: "event list \<Rightarrow> bool" where
  "chain_order [] = True"
| "chain_order (e # older) = (event_in_order e older \<and> chain_order older)"

text \<open>The claim as it is stated, with the engine call of every earlier ticket settled.\<close>

fun engine_calls_disjoint :: "event list \<Rightarrow> bool" where
  "engine_calls_disjoint [] = True"
| "engine_calls_disjoint (Engine_started t' # older) =
     (list_all (\<lambda>t. Engine_finished t \<in> set older) [0..<t'] \<and> engine_calls_disjoint older)"
| "engine_calls_disjoint (e # older) = engine_calls_disjoint older"

text \<open>
  The calls that empty the memory cache or take a fingerprint out of it: the theme
  handler's \<open>clearMemoryCache\<close>, \<open>resetEngine\<close> and \<open>retryBlock\<close>.
\<close>

fun keeps_memory :: "action \<Rightarrow> bool" where
  "keeps_memory (Call_retryBlock h src document) = False"
| "keeps_memory Call_clearMemoryCache = False"
| "keeps_memory Call_resetEngine = False"
| "keeps_memory a = True"

subsection \<open>Stand-ins\<close>

text \<open>
  Collaborators as a test would give them: a hash function that is no digest, a
  post-processing that changes nothing, the default timeout and a clock that stands
  still; and a document without blocks, for \<open>retryBlock\<close>.
\<close>

definition stub_collaborators :: collaborators where
  "stub_collaborators =
     \<lparr>generateHash = (\<lambda>t. ascii ''h:'' @ t), postProcessSvg = (\<lambda>t d. Some t),
      renderTimeout = 0, clock = (\<lambda>t. 0), large_number_text = (\<lambda>n. [])\<rparr>"

definition a_document :: TextDocument where
  "a_document = \<lparr>getText = [], uri = ascii ''a.md'', positionAt = (\<lambda>i. (0, nat i))\<rparr>"



section \<open>Facts about strings\<close>

lemma split_on_nonempty: "split_on d s \<noteq> []"
  by (induction s) (auto split: list.splits)

lemma split_on_no_sep: "l \<in> set (split_on d s) \<Longrightarrow> d \<notin> set l"
proof (induction s arbitrary: l)
  case Nil
  then show ?case by simp
next
  case (Cons c cs)
  obtain x xs where sp: "split_on d cs = x # xs"
    using split_on_nonempty [of d cs] by (cases "split_on d cs") auto
  show ?case
  proof (cases "c = d")
    case True
    with Cons show ?thesis by auto
  next
    case False
    with Cons.prems sp have "l = c # x \<or> l \<in> set xs" by auto
    then show ?thesis
    proof
      assume "l = c # x"
      moreover have "d \<notin> set x" using Cons.IH [of x] sp by simp
      ultimately show ?thesis using False by auto
    next
      assume "l \<in> set xs"
      then show ?thesis using Cons.IH [of l] sp by simp
    qed
  qed
qed

lemma split_on_subset: "l \<in> set (split_on d s) \<Longrightarrow> set l \<subseteq> set s"
proof (induction s arbitrary: l)
  case Nil
  then show ?case by simp
next
  case (Cons c cs)
  obtain x xs where sp: "split_on d cs = x # xs"
    using split_on_nonempty [of d cs] by (cases "split_on d cs") auto
  show ?case
  proof (cases "c = d")
    case True
    with Cons show ?thesis by auto
  next
    case False
    with Cons.prems sp have "l = c # x \<or> l \<in> set xs" by auto
    then show ?thesis
    proof
      assume "l = c # x"
      moreover have "set x \<subseteq> set cs" using Cons.IH [of x] sp by simp
      ultimately show ?thesis by auto
    next
      assume "l \<in> set xs"
      then have "set l \<subseteq> set cs" using Cons.IH [of l] sp by simp
      then show ?thesis by auto
    qed
  qed
qed

lemma split_on_plain: "d \<notin> set l \<Longrightarrow> split_on d l = [l]"
  by (induction l) auto

lemma split_on_append_sep:
  "d \<notin> set l \<Longrightarrow> split_on d (l @ d # r) = l # split_on d r"
  by (induction l) auto

lemma split_on_join:
  "ls \<noteq> [] \<Longrightarrow> \<forall>l \<in> set ls. d \<notin> set l \<Longrightarrow> split_on d (join d ls) = ls"
proof (induction d ls rule: join.induct)
  case (1 d)
  then show ?case by simp
next
  case (2 d l)
  then show ?case by (simp add: split_on_plain)
next
  case (3 d l v va)
  then show ?case by (simp add: split_on_append_sep)
qed

lemma set_join: "set (join d ls) \<subseteq> insert d (\<Union> (set ` set ls))"
  by (induction d ls rule: join.induct) auto

lemma set_trim: "set (trim s) \<subseteq> set s"
proof -
  have "set (trimEnd t) \<subseteq> set t" for t
    unfolding trimEnd_def using set_dropWhileD [of _ isWhiteSpace "rev t"] by auto
  moreover have "set (trimStart s) \<subseteq> set s"
    unfolding trimStart_def using set_dropWhileD [of _ isWhiteSpace s] by auto
  ultimately show ?thesis unfolding trim_def by blast
qed

lemma trimStart_id: "s \<noteq> [] \<Longrightarrow> \<not> isWhiteSpace (hd s) \<Longrightarrow> trimStart s = s"
  by (cases s) (auto simp: trimStart_def)

lemma trimEnd_id: "s \<noteq> [] \<Longrightarrow> \<not> isWhiteSpace (last s) \<Longrightarrow> trimEnd s = s"
proof -
  assume a: "s \<noteq> []" "\<not> isWhiteSpace (last s)"
  then have "rev s \<noteq> []" "\<not> isWhiteSpace (hd (rev s))" by (simp_all add: hd_rev)
  then have "dropWhile isWhiteSpace (rev s) = rev s" by (cases "rev s") auto
  then show ?thesis by (simp add: trimEnd_def)
qed

lemma trim_ends:
  assumes "trim s \<noteq> []"
  shows "\<not> isWhiteSpace (hd (trim s))" and "\<not> isWhiteSpace (last (trim s))"
proof -
  let ?t = "trimStart s"
  have ne: "dropWhile isWhiteSpace (rev ?t) \<noteq> []"
    using assms by (simp add: trim_def trimEnd_def)
  then have "\<not> isWhiteSpace (hd (dropWhile isWhiteSpace (rev ?t)))"
    by (rule hd_dropWhile)
  then show l: "\<not> isWhiteSpace (last (trim s))"
    using ne by (simp add: trim_def trimEnd_def last_rev)
  have tne: "?t \<noteq> []" using ne by auto
  then have h: "\<not> isWhiteSpace (hd ?t)"
    unfolding trimStart_def by (rule hd_dropWhile)
  have "rev ?t = takeWhile isWhiteSpace (rev ?t) @ dropWhile isWhiteSpace (rev ?t)"
    by simp
  then have "?t = rev (dropWhile isWhiteSpace (rev ?t)) @ rev (takeWhile isWhiteSpace (rev ?t))"
    by (metis rev_append rev_rev_ident)
  then have "?t = trim s @ rev (takeWhile isWhiteSpace (rev ?t))"
    by (simp add: trim_def trimEnd_def)
  then have "hd ?t = hd (trim s)" using assms by (metis hd_append2)
  with h show "\<not> isWhiteSpace (hd (trim s))" by simp
qed

lemma trim_id: "s \<noteq> [] \<Longrightarrow> \<not> isWhiteSpace (hd s) \<Longrightarrow> \<not> isWhiteSpace (last s) \<Longrightarrow> trim s = s"
  by (simp add: trim_def trimStart_id trimEnd_id)

lemma trim_trim: "trim (trim s) = trim s"
proof (cases "trim s = []")
  case True
  have "trim [] = []" by (simp add: trim_def trimStart_def trimEnd_def)
  with True show ?thesis by simp
next
  case False
  then show ?thesis using trim_ends [of s] by (simp add: trim_id)
qed

lemma replace_nbsp_free: "NBSP \<notin> set (replace_nbsp s)"
  by (auto simp: replace_nbsp_def NBSP_def SP_def)

lemma replace_nbsp_id: "NBSP \<notin> set s \<Longrightarrow> replace_nbsp s = s"
  by (induction s) (auto simp: replace_nbsp_def)

section \<open>Properties of the preprocessor\<close>

definition preprocessed_lines :: "jsstring \<Rightarrow> jsstring list" where
  "preprocessed_lines src =
     filter (\<lambda>line. length line > 0) (map trim (split_on LF (replace_nbsp src)))"

lemma preprocessSource_lines: "preprocessSource s = join LF (preprocessed_lines s)"
  by (simp add: preprocessSource_def preprocessed_lines_def)

lemma preprocessed_lines_props:
  assumes "l \<in> set (preprocessed_lines s)"
  shows "l \<noteq> []" and "trim l = l" and "LF \<notin> set l" and "NBSP \<notin> set l"
proof -
  from assms obtain r where r: "r \<in> set (split_on LF (replace_nbsp s))" and l: "l = trim r"
    and ne: "l \<noteq> []"
    by (auto simp: preprocessed_lines_def)
  show "l \<noteq> []" by (rule ne)
  show "trim l = l" using l by (simp add: trim_trim)
  have "set l \<subseteq> set r" using l set_trim by simp
  moreover have "LF \<notin> set r" using r by (rule split_on_no_sep)
  moreover have "NBSP \<notin> set r" using split_on_subset [OF r] replace_nbsp_free [of s] by auto
  ultimately show "LF \<notin> set l" and "NBSP \<notin> set l" by auto
qed

lemma preprocessSource_no_nbsp: "NBSP \<notin> set (preprocessSource s)"
proof
  assume "NBSP \<in> set (preprocessSource s)"
  then have "NBSP \<in> insert LF (\<Union> (set ` set (preprocessed_lines s)))"
    using set_join [of LF "preprocessed_lines s"] by (auto simp: preprocessSource_lines)
  then obtain l where "l \<in> set (preprocessed_lines s)" "NBSP \<in> set l"
    by (auto simp: NBSP_def LF_def)
  then show False using preprocessed_lines_props(4) by blast
qed

lemma preprocessed_lines_fixed:
  "preprocessed_lines (preprocessSource s) = preprocessed_lines s"
proof (cases "preprocessed_lines s = []")
  case True
  then have "preprocessSource s = []" by (simp add: preprocessSource_lines)
  then show ?thesis
    using True
    by (simp add: preprocessed_lines_def replace_nbsp_def trim_def trimStart_def trimEnd_def)
next
  case False
  let ?ls = "preprocessed_lines s"
  let ?P = "\<lambda>line :: jsstring. length line > 0"
  have a: "replace_nbsp (preprocessSource s) = join LF ?ls"
    using replace_nbsp_id [OF preprocessSource_no_nbsp, of s]
    by (simp only: preprocessSource_lines)
  have b: "split_on LF (join LF ?ls) = ?ls"
    using False preprocessed_lines_props(3) by (intro split_on_join) auto
  have c: "map trim ?ls = ?ls"
    using preprocessed_lines_props(2) by (simp add: map_idI)
  have d: "filter ?P ?ls = ?ls"
    using preprocessed_lines_props(1) by (intro filter_True) auto
  have "preprocessed_lines (preprocessSource s)
      = filter ?P (map trim (split_on LF (replace_nbsp (preprocessSource s))))"
    by (simp only: preprocessed_lines_def)
  also have "\<dots> = filter ?P (map trim (split_on LF (join LF ?ls)))"
    by (simp only: a)
  also have "\<dots> = ?ls"
    by (simp only: b c d)
  finally show ?thesis .
qed

text \<open>
  C10. \<open>preprocessSource\<close> is idempotent. Its output contains no non-breaking space,
  and unless the output is the empty string, none of its lines (the pieces between
  newline characters) is empty or begins or ends with a whitespace character.
\<close>

theorem preprocessSource_idempotent_clean:
  "preprocessSource (preprocessSource s) = preprocessSource s \<and>
   NBSP \<notin> set (preprocessSource s) \<and>
   (preprocessSource s = [] \<or>
    (\<forall>l \<in> set (split_on LF (preprocessSource s)).
       l \<noteq> [] \<and> \<not> isWhiteSpace (hd l) \<and> \<not> isWhiteSpace (last l)))"
proof (intro conjI)
  show "preprocessSource (preprocessSource s) = preprocessSource s"
    using preprocessed_lines_fixed [of s] by (simp add: preprocessSource_lines)
  show "NBSP \<notin> set (preprocessSource s)" by (rule preprocessSource_no_nbsp)
  show "preprocessSource s = [] \<or>
    (\<forall>l \<in> set (split_on LF (preprocessSource s)).
       l \<noteq> [] \<and> \<not> isWhiteSpace (hd l) \<and> \<not> isWhiteSpace (last l))"
  proof (cases "preprocessed_lines s = []")
    case True
    then show ?thesis by (simp add: preprocessSource_lines)
  next
    case False
    have sp: "split_on LF (preprocessSource s) = preprocessed_lines s"
      unfolding preprocessSource_lines
      using False preprocessed_lines_props(3) by (intro split_on_join) auto
    have "l \<noteq> [] \<and> \<not> isWhiteSpace (hd l) \<and> \<not> isWhiteSpace (last l)"
      if "l \<in> set (preprocessed_lines s)" for l
    proof -
      have "l \<noteq> []" "trim l = l" using that preprocessed_lines_props by blast+
      then show ?thesis using trim_ends [of l] by simp
    qed
    then show ?thesis using sp by simp
  qed
qed

text \<open>
  The mixed input of the preprocessor's tests: leading and trailing blanks, empty
  lines and non-breaking spaces, here \<open>"  a  \n\n b U+00A0 c \n"\<close>.
\<close>

theorem preprocessSource_idempotent_clean_witness:
  "preprocessSource (ascii ''  a  '' @ [LF, LF, SP] @ ascii ''b'' @ [NBSP] @ ascii ''c '' @ [LF])
     = ascii ''a'' @ [LF] @ ascii ''b c'' \<and>
   preprocessSource (ascii ''a'' @ [LF] @ ascii ''b c'') = ascii ''a'' @ [LF] @ ascii ''b c'' \<and>
   split_on LF (ascii ''a'' @ [LF] @ ascii ''b c'') = [ascii ''a'', ascii ''b c''] \<and>
   \<not> isWhiteSpace (hd (ascii ''b c'')) \<and> \<not> isWhiteSpace (last (ascii ''b c''))"
proof -
  let ?s = "ascii ''  a  '' @ [LF, LF, SP] @ ascii ''b'' @ [NBSP] @ ascii ''c '' @ [LF]"
  have out: "preprocessSource ?s = ascii ''a'' @ [LF] @ ascii ''b c''"
    by (simp add: preprocessSource_def replace_nbsp_def trim_def trimStart_def trimEnd_def
        ascii_def LF_def SP_def NBSP_def isWhiteSpace_def isLineTerminator_def)
  have sp: "split_on LF (ascii ''a'' @ [LF] @ ascii ''b c'') = [ascii ''a'', ascii ''b c'']"
    by (simp add: ascii_def LF_def)
  have "ascii ''b c'' \<in> set (split_on LF (preprocessSource ?s))"
    unfolding out sp by simp
  moreover have "preprocessSource ?s \<noteq> []"
    unfolding out by (simp add: ascii_def)
  ultimately have "\<not> isWhiteSpace (hd (ascii ''b c'')) \<and> \<not> isWhiteSpace (last (ascii ''b c''))"
    using preprocessSource_idempotent_clean [of ?s] by blast
  moreover have "preprocessSource (ascii ''a'' @ [LF] @ ascii ''b c'') = ascii ''a'' @ [LF] @ ascii ''b c''"
    using preprocessSource_idempotent_clean [of ?s] by (simp only: out)
  ultimately show ?thesis using out sp by simp
qed

section \<open>Properties of the persistent cache\<close>


lemma getCacheKey_inj: "getCacheKey h = getCacheKey h' \<longleftrightarrow> h = h'"
  by (simp add: getCacheKey_def)

lemma CACHE_INDEX_KEY_split: "CACHE_INDEX_KEY = getCacheKey (ascii ''index'')"
  by (simp add: CACHE_INDEX_KEY_def getCacheKey_def CACHE_KEY_PREFIX_def ascii_def)

lemma reserved_iff: "reserved h \<longleftrightarrow> h = ascii ''index''"
  by (simp add: reserved_def CACHE_INDEX_KEY_split getCacheKey_inj)

lemma CacheEntry_rebuild:
  "new_CacheEntry (hash e) (svg e) (timestamp e) (accessCount e) = (e :: CacheEntry)"
  by (simp add: new_CacheEntry_def)

lemma increment_exact: "exact_count x \<Longrightarrow> increment x = x + 1"
  by (simp add: increment_def exact_count_def)

lemma increment_at_2_53: "increment (2 ^ 53) = 2 ^ 53"
  by (simp add: increment_def)

lemma timestamp_touch [simp]: "timestamp (touch e) = timestamp e"
  by (simp add: touch_def)

lemma touch_exact: "exact_count (accessCount e) \<Longrightarrow> touch e = e\<lparr>accessCount := accessCount e + 1\<rparr>"
  by (simp add: touch_def increment_exact)

lemma touch_rebuild:
  "new_CacheEntry (hash (touch e)) (svg (touch e)) (timestamp (touch e)) (accessCount (touch e))
     = touch (e :: CacheEntry)"
  by (simp add: new_CacheEntry_def touch_def)

text \<open>
  The invariant of the store: the index is an array without repetition, of fingerprints
  only, and a fingerprint is in it exactly when its entry key holds an entry.
\<close>

definition cache_inv :: "memento \<Rightarrow> jsstring list \<Rightarrow> bool" where
  "cache_inv m index \<longleftrightarrow>
     getIndex m = Hash_list index \<and> distinct index \<and>
     (\<forall>h \<in> set index. \<not> reserved h) \<and>
     (\<forall>h. \<not> reserved h \<longrightarrow> (h \<in> set index \<longleftrightarrow> m (getCacheKey h) \<noteq> None)) \<and>
     (\<forall>h l. \<not> reserved h \<longrightarrow> m (getCacheKey h) \<noteq> Some (Hash_list l))"

lemma cache_inv_empty: "cache_inv Map.empty []"
  by (simp add: cache_inv_def getIndex_def)

lemma cm_set_inv:
  assumes "cache_inv m index" "\<not> reserved h"
  shows "\<exists>m'. cm_set h e m = (Inr (), m') \<and>
              cache_inv m' (if h \<in> set index then index else index @ [h])"
proof -
  have ne: "getCacheKey h \<noteq> CACHE_INDEX_KEY" using assms(2) by (simp add: reserved_def)
  show ?thesis
    using assms ne
    by (auto simp: cm_set_def addToIndex_def Let_def cache_inv_def getIndex_def update_def
        getCacheKey_inj reserved_def split: option.splits jsvalue.splits)
qed

lemma invalidate_inv:
  assumes "cache_inv m index" "\<not> reserved h"
  shows "\<exists>m'. invalidate h m = (Inr (), m') \<and> cache_inv m' (filter (\<lambda>x. x \<noteq> h) index)"
proof -
  have ne: "getCacheKey h \<noteq> CACHE_INDEX_KEY" using assms(2) by (simp add: reserved_def)
  show ?thesis
    using assms ne
    by (auto simp: invalidate_def removeFromIndex_def Let_def cache_inv_def getIndex_def update_def
        getCacheKey_inj reserved_def split: option.splits jsvalue.splits)
qed

lemma clear_entries_apply:
  "clear_entries hs m k = (if k \<in> getCacheKey ` set hs then None else m k)"
  by (induction hs arbitrary: m) (auto simp: update_def)

lemma clear_inv:
  assumes "cache_inv m index"
  shows "\<exists>m'. clear m = (Inr (), m') \<and> cache_inv m' []"
  using assms
  by (auto simp: clear_def cache_inv_def getIndex_def update_def clear_entries_apply reserved_def
      split: option.splits jsvalue.splits)

lemma apply_op_inv:
  assumes "cache_inv m index" "\<forall>h \<in> op_hashes c. \<not> reserved h"
  shows "\<exists>m' index'. apply_op c m = (Inr (), m') \<and> cache_inv m' index'"
proof (cases c)
  case (Set h e)
  then show ?thesis using cm_set_inv [OF assms(1), of h e] assms(2) by auto
next
  case (Invalidate h)
  then show ?thesis using invalidate_inv [OF assms(1), of h] assms(2) by auto
next
  case Clear
  then show ?thesis using clear_inv [OF assms(1)] by auto
qed

lemma run_ops_inv:
  assumes "cache_inv m index" "\<forall>c \<in> set ops. \<forall>h \<in> op_hashes c. \<not> reserved h"
  shows "\<exists>m' index'. run_ops ops m = (Inr (), m') \<and> cache_inv m' index'"
  using assms
proof (induction ops arbitrary: m index)
  case Nil
  then show ?case by auto
next
  case (Cons c cs)
  from Cons.prems obtain m1 index1 where s: "apply_op c m = (Inr (), m1)" "cache_inv m1 index1"
    using apply_op_inv [of m index c] by auto
  from Cons.IH [OF s(2)] Cons.prems(2) obtain m' index' where
    "run_ops cs m1 = (Inr (), m')" "cache_inv m' index'" by auto
  with s show ?case by auto
qed

lemma present_iff: "present h m \<longleftrightarrow> (\<exists>d. m (getCacheKey h) = Some (Entry_data d))"
  by (auto simp: present_def cm_get_def Let_def split: option.splits jsvalue.splits)

lemma cache_inv_present:
  assumes "cache_inv m index" "\<not> reserved h"
  shows "h \<in> set index \<longleftrightarrow> present h m"
proof -
  have "m (getCacheKey h) \<noteq> None \<longleftrightarrow> (\<exists>d. m (getCacheKey h) = Some (Entry_data d))"
  proof (cases "m (getCacheKey h)")
    case None
    then show ?thesis by simp
  next
    case (Some v)
    then show ?thesis using assms by (cases v) (auto simp: cache_inv_def)
  qed
  then show ?thesis using assms by (simp add: present_iff cache_inv_def)
qed

lemma stats_loop_ok:
  assumes "\<forall>h \<in> set hs. \<forall>l. m (getCacheKey h) \<noteq> Some (Hash_list l)"
  shows "\<exists>n' m'. stats_loop hs n m = (Inr n', m')"
  using assms
proof (induction hs arbitrary: n m)
  case Nil
  then show ?case by simp
next
  case (Cons h hs)
  show ?case
  proof (cases "m (getCacheKey h)")
    case None
    then have "cm_get h m = (Inr None, m)" by (simp add: cm_get_def)
    then show ?thesis using Cons.IH [of m n] Cons.prems by simp
  next
    case (Some v)
    with Cons.prems obtain d where d: "m (getCacheKey h) = Some (Entry_data d)"
      by (cases v) auto
    let ?m' = "update (getCacheKey h) (Some (Entry_data (touch d))) m"
    have g: "cm_get h m = (Inr (Some (touch d)), ?m')"
      using d by (simp add: cm_get_def Let_def CacheEntry_rebuild touch_rebuild)
    have "\<forall>h \<in> set hs. \<forall>l. ?m' (getCacheKey h) \<noteq> Some (Hash_list l)"
      using Cons.prems by (auto simp: update_def)
    from Cons.IH [OF this] show ?thesis using g by simp
  qed
qed

lemma getStats_count:
  assumes "cache_inv m index"
  shows "\<exists>st m'. getStats m = (Inr st, m') \<and> entryCount st = length index"
proof -
  have "\<forall>h \<in> set index. \<forall>l. m (getCacheKey h) \<noteq> Some (Hash_list l)"
    using assms by (auto simp: cache_inv_def)
  from stats_loop_ok [OF this, of 0] obtain n' m' where "stats_loop index 0 m = (Inr n', m')"
    by auto
  then show ?thesis using assms by (simp add: getStats_def cache_inv_def)
qed

text \<open>
  C5. Starting from the empty store, after any sequence of \<open>set\<close>, \<open>invalidate\<close> and
  \<open>clear\<close> calls on fingerprints (no call names the hash \<open>index\<close>, whose entry key
  is the index key) no call has thrown, the index lists no hash twice, a fingerprint is in
  the index exactly when \<open>get\<close> finds its entry, and the count reported by \<open>getStats\<close>
  is the length of the index and the number of fingerprints that \<open>get\<close> finds.
\<close>

theorem index_consistency:
  assumes "\<forall>c \<in> set ops. \<forall>h \<in> op_hashes c. \<not> reserved h"
  shows "\<exists>m index st m'.
           run_ops ops Map.empty = (Inr (), m) \<and>
           getIndex m = Hash_list index \<and> distinct index \<and>
           (\<forall>h. \<not> reserved h \<longrightarrow> (h \<in> set index \<longleftrightarrow> present h m)) \<and>
           getStats m = (Inr st, m') \<and>
           entryCount st = length index \<and>
           entryCount st = card {h. \<not> reserved h \<and> present h m}"
proof -
  from run_ops_inv [OF cache_inv_empty assms] obtain m index where
    r: "run_ops ops Map.empty = (Inr (), m)" and inv: "cache_inv m index" by auto
  from getStats_count [OF inv] obtain st m' where
    st: "getStats m = (Inr st, m')" "entryCount st = length index" by auto
  have "{h. \<not> reserved h \<and> present h m} = set index"
    using cache_inv_present [OF inv] inv by (auto simp: cache_inv_def)
  then have "card {h. \<not> reserved h \<and> present h m} = length index"
    using inv by (simp add: cache_inv_def distinct_card)
  then show ?thesis
    using r st inv cache_inv_present [OF inv] by (auto simp: cache_inv_def)
qed

lemma stored_update_other:
  "key \<noteq> getCacheKey h \<Longrightarrow> stored h (update key v m) = stored h m"
  by (simp add: stored_def update_def)

lemma stored_update_same:
  "stored h (update (getCacheKey h) (Some (Entry_data d)) m) = Some d"
  by (simp add: stored_def update_def)

lemma stored_cm_set_same:
  assumes "\<not> reserved h"
  shows "stored h (snd (cm_set h e m)) = Some e"
proof -
  have "CACHE_INDEX_KEY \<noteq> getCacheKey h" using assms by (auto simp: reserved_def)
  then show ?thesis
    by (cases "getIndex (update (getCacheKey h) (Some (Entry_data e)) m)")
       (simp_all add: cm_set_def addToIndex_def Let_def CacheEntry_rebuild
          stored_update_other stored_update_same)
qed

lemma stored_cm_set_other:
  assumes "\<not> reserved h" "h' \<noteq> h"
  shows "stored h (snd (cm_set h' e m)) = stored h m"
proof -
  have "CACHE_INDEX_KEY \<noteq> getCacheKey h" using assms by (auto simp: reserved_def)
  moreover have "getCacheKey h' \<noteq> getCacheKey h" using assms by (simp add: getCacheKey_inj)
  ultimately show ?thesis
    by (cases "getIndex (update (getCacheKey h') (Some (Entry_data e)) m)")
       (simp_all add: cm_set_def addToIndex_def Let_def CacheEntry_rebuild stored_update_other)
qed

lemma stored_invalidate_same: "stored h (snd (invalidate h m)) = None"
  by (cases "getIndex (update (getCacheKey h) None m)")
     (auto simp: invalidate_def removeFromIndex_def Let_def stored_def update_def)

lemma stored_invalidate_other:
  assumes "\<not> reserved h" "h' \<noteq> h"
  shows "stored h (snd (invalidate h' m)) = stored h m"
proof -
  have "CACHE_INDEX_KEY \<noteq> getCacheKey h" using assms by (auto simp: reserved_def)
  moreover have "getCacheKey h' \<noteq> getCacheKey h" using assms by (simp add: getCacheKey_inj)
  ultimately show ?thesis
    by (cases "getIndex (update (getCacheKey h') None m)")
       (simp_all add: invalidate_def removeFromIndex_def Let_def stored_update_other)
qed

lemma stored_clear:
  assumes "\<not> reserved h"
  shows "stored h (snd (clear m)) = None \<or> stored h (snd (clear m)) = stored h m"
proof -
  have "CACHE_INDEX_KEY \<noteq> getCacheKey h" using assms by (auto simp: reserved_def)
  then show ?thesis
    by (cases "getIndex m")
       (auto simp: clear_def stored_def update_def clear_entries_apply)
qed

lemma cm_get_hit:
  assumes "stored h m = Some d"
  shows "cm_get h m = (Inr (Some (touch d)), update (getCacheKey h) (Some (Entry_data (touch d))) m)"
  using assms
  by (auto simp: stored_def cm_get_def Let_def CacheEntry_rebuild touch_rebuild
      split: option.splits jsvalue.splits)

lemma cm_get_miss:
  assumes "stored h m = None"
  shows "snd (cm_get h m) = m" and "fst (cm_get h m) \<noteq> Inr (Some e)"
  using assms
  by (auto simp: stored_def cm_get_def Let_def split: option.splits jsvalue.splits)

lemma cm_get_timestamp:
  assumes "\<not> reserved h"
  shows "map_option timestamp (stored h (snd (cm_get h' m))) = map_option timestamp (stored h m)"
proof (cases "stored h' m")
  case None
  then show ?thesis by (simp add: cm_get_miss)
next
  case (Some d)
  show ?thesis
  proof (cases "h' = h")
    case True
    with Some show ?thesis by (simp add: cm_get_hit stored_update_same)
  next
    case False
    then have "getCacheKey h' \<noteq> getCacheKey h" by (simp add: getCacheKey_inj)
    with Some show ?thesis by (simp add: cm_get_hit stored_update_other)
  qed
qed

text \<open>
  C4. For a fingerprint \<open>h\<close> and an entry \<open>e\<close> whose count is one that \<open>touch\<close>
  adds exactly one to, also after the first \<open>get\<close>, in a store whose index is an array:
  after \<open>set(h, e)\<close>, \<open>get(h)\<close> returns \<open>e\<close> with \<open>accessCount\<close> one higher, and
  the store holds that entry when \<open>get\<close> returns; its \<open>svg\<close> is the text that was
  stored; a second \<open>get\<close> returns \<open>e\<close> with \<open>accessCount\<close> two higher.
\<close>

theorem set_get_roundtrip:
  assumes "\<not> reserved h" and "getIndex m = Hash_list index"
    and "exact_count (accessCount e)" and "exact_count (accessCount e + 1)"
  shows "\<exists>m1 m2 m3.
           cm_set h e m = (Inr (), m1) \<and>
           cm_get h m1 = (Inr (Some (e\<lparr>accessCount := accessCount e + 1\<rparr>)), m2) \<and>
           stored h m2 = Some (e\<lparr>accessCount := accessCount e + 1\<rparr>) \<and>
           svg (e\<lparr>accessCount := accessCount e + 1\<rparr>) = svg e \<and>
           cm_get h m2 = (Inr (Some (e\<lparr>accessCount := accessCount e + 2\<rparr>)), m3) \<and>
           stored h m3 = Some (e\<lparr>accessCount := accessCount e + 2\<rparr>)"
proof -
  have ne: "getCacheKey h \<noteq> CACHE_INDEX_KEY" using assms(1) by (simp add: reserved_def)
  have "getIndex (update (getCacheKey h) (Some (Entry_data e)) m) = Hash_list index"
    using ne assms(2) by (simp add: getIndex_def update_def)
  then have "fst (cm_set h e m) = Inr ()"
    by (simp add: cm_set_def addToIndex_def Let_def CacheEntry_rebuild)
  then obtain m1 where s: "cm_set h e m = (Inr (), m1)" by (cases "cm_set h e m") auto
  then have st1: "stored h m1 = Some e" using stored_cm_set_same [OF assms(1), of e m] by simp
  let ?e1 = "e\<lparr>accessCount := accessCount e + 1\<rparr>"
  let ?e2 = "e\<lparr>accessCount := accessCount e + 2\<rparr>"
  have t1: "touch e = ?e1" and t2: "touch ?e1 = ?e2"
    using assms(3,4) by (simp_all add: touch_exact)
  let ?m2 = "update (getCacheKey h) (Some (Entry_data ?e1)) m1"
  let ?m3 = "update (getCacheKey h) (Some (Entry_data ?e2)) ?m2"
  have g1: "cm_get h m1 = (Inr (Some ?e1), ?m2)"
    using cm_get_hit [OF st1] by (simp only: t1)
  have st2: "stored h ?m2 = Some ?e1" by (rule stored_update_same)
  have g2: "cm_get h ?m2 = (Inr (Some ?e2), ?m3)"
    using cm_get_hit [OF st2] by (simp only: t2)
  have st3: "stored h ?m3 = Some ?e2" by (rule stored_update_same)
  have sv: "svg ?e1 = svg e" by simp
  from s g1 st2 sv g2 st3 show ?thesis by blast
qed

theorem set_get_roundtrip_witness:
  "\<not> reserved (ascii ''ab'') \<and> getIndex Map.empty = Hash_list [] \<and>
   exact_count 0 \<and> exact_count (0 + 1) \<and>
   fst (cm_get (ascii ''ab'')
          (snd (cm_set (ascii ''ab'') (new_CacheEntry (ascii ''ab'') (ascii ''<svg/>'') 7 0) Map.empty)))
     = Inr (Some (new_CacheEntry (ascii ''ab'') (ascii ''<svg/>'') 7 1))"
proof -
  have r: "\<not> reserved (ascii ''ab'')" by (simp add: reserved_iff ascii_def)
  have i: "getIndex Map.empty = Hash_list []" by (simp add: getIndex_def)
  have c: "exact_count (accessCount (new_CacheEntry (ascii ''ab'') (ascii ''<svg/>'') 7 0))"
    "exact_count (accessCount (new_CacheEntry (ascii ''ab'') (ascii ''<svg/>'') 7 0) + 1)"
    by (simp_all add: exact_count_def new_CacheEntry_def)
  from set_get_roundtrip [OF r i c]
  show ?thesis using r i by (auto simp: new_CacheEntry_def exact_count_def)
qed

text \<open>
  C8, as stated, fails for \<open>set\<close> on a fingerprint that is already stored: the store
  then holds the timestamp of the entry passed in, here 2 where it was 1.
\<close>

theorem timestamp_replaced_by_set_counterexample:
  "map_option timestamp (stored (ascii ''ab'')
      (snd (cm_set (ascii ''ab'') (new_CacheEntry (ascii ''ab'') (ascii ''<svg/>'') 1 0) Map.empty)))
     = Some 1 \<and>
   map_option timestamp (stored (ascii ''ab'')
      (snd (cm_set (ascii ''ab'') (new_CacheEntry (ascii ''ab'') (ascii ''<svg/>'') 2 0)
        (snd (cm_set (ascii ''ab'') (new_CacheEntry (ascii ''ab'') (ascii ''<svg/>'') 1 0) Map.empty)))))
     = Some 2"
proof -
  have r: "\<not> reserved (ascii ''ab'')" by (simp add: reserved_iff ascii_def)
  show ?thesis by (simp add: stored_cm_set_same [OF r] new_CacheEntry_def)
qed

text \<open>
  C8, amended. For a fingerprint \<open>h\<close>: no \<open>get\<close> changes the timestamp stored for
  \<open>h\<close>, and a \<open>get\<close> that finds \<open>h\<close> returns and stores its entry with
  \<open>accessCount\<close> one higher, when the count is one that \<open>touch\<close> adds exactly one
  to; \<open>set\<close> and \<open>invalidate\<close> on another hash leave the
  entry of \<open>h\<close> as it is; \<open>invalidate\<close> of \<open>h\<close> removes it, and \<open>clear\<close> removes
  it or leaves it as it is; \<open>set(h, e)\<close> stores \<open>e\<close> whole, its timestamp included.
\<close>

theorem timestamp_frame:
  assumes "\<not> reserved h"
  shows "map_option timestamp (stored h (snd (cm_get h' m))) = map_option timestamp (stored h m) \<and>
         (stored h m = Some d \<and> exact_count (accessCount d) \<longrightarrow>
            fst (cm_get h m) = Inr (Some (d\<lparr>accessCount := accessCount d + 1\<rparr>)) \<and>
            stored h (snd (cm_get h m)) = Some (d\<lparr>accessCount := accessCount d + 1\<rparr>)) \<and>
         (h' \<noteq> h \<longrightarrow> stored h (snd (cm_set h' e m)) = stored h m \<and>
                      stored h (snd (invalidate h' m)) = stored h m) \<and>
         stored h (snd (cm_set h e m)) = Some e \<and>
         stored h (snd (invalidate h m)) = None \<and>
         (stored h (snd (clear m)) = None \<or> stored h (snd (clear m)) = stored h m)"
proof (intro conjI impI)
  show "map_option timestamp (stored h (snd (cm_get h' m))) = map_option timestamp (stored h m)"
    using assms by (rule cm_get_timestamp)
  show "stored h (snd (cm_set h e m)) = Some e" using assms by (rule stored_cm_set_same)
  show "stored h (snd (invalidate h m)) = None" by (rule stored_invalidate_same)
  show "stored h (snd (clear m)) = None \<or> stored h (snd (clear m)) = stored h m"
    using assms by (rule stored_clear)
next
  assume a: "stored h m = Some d \<and> exact_count (accessCount d)"
  then have g: "cm_get h m = (Inr (Some (touch d)), update (getCacheKey h) (Some (Entry_data (touch d))) m)"
    by (simp add: cm_get_hit)
  show "fst (cm_get h m) = Inr (Some (d\<lparr>accessCount := accessCount d + 1\<rparr>))"
    using g a by (simp add: touch_exact)
  show "stored h (snd (cm_get h m)) = Some (d\<lparr>accessCount := accessCount d + 1\<rparr>)"
    using g a by (simp add: stored_update_same touch_exact)
next
  assume "h' \<noteq> h"
  then show "stored h (snd (cm_set h' e m)) = stored h m"
    using assms by (simp add: stored_cm_set_other)
  show "stored h (snd (invalidate h' m)) = stored h m"
    using assms \<open>h' \<noteq> h\<close> by (simp add: stored_invalidate_other)
qed


theorem index_consistency_witness:
  "\<not> reserved (ascii ''ab'') \<and> \<not> reserved (ascii ''cd'') \<and>
   (\<exists>m st m'.
      run_ops [Set (ascii ''ab'') (new_CacheEntry (ascii ''ab'') (ascii ''<svg/>'') 1 0),
               Set (ascii ''cd'') (new_CacheEntry (ascii ''cd'') (ascii ''<svg/>'') 2 0),
               Set (ascii ''ab'') (new_CacheEntry (ascii ''ab'') (ascii ''<svg/>'') 3 0),
               Invalidate (ascii ''ab'')] Map.empty = (Inr (), m) \<and>
      getIndex m = Hash_list [ascii ''cd''] \<and>
      present (ascii ''cd'') m \<and> \<not> present (ascii ''ab'') m \<and>
      getStats m = (Inr st, m') \<and> entryCount st = 1 \<and>
      card {h. \<not> reserved h \<and> present h m} = 1)"
proof -
  let ?ops = "[Set (ascii ''ab'') (new_CacheEntry (ascii ''ab'') (ascii ''<svg/>'') 1 0),
               Set (ascii ''cd'') (new_CacheEntry (ascii ''cd'') (ascii ''<svg/>'') 2 0),
               Set (ascii ''ab'') (new_CacheEntry (ascii ''ab'') (ascii ''<svg/>'') 3 0),
               Invalidate (ascii ''ab'')]"
  have r: "\<not> reserved (ascii ''ab'')" "\<not> reserved (ascii ''cd'')"
    by (simp_all add: reserved_iff ascii_def)
  then have h: "\<forall>c \<in> set ?ops. \<forall>h \<in> op_hashes c. \<not> reserved h" by simp
  from index_consistency [OF h] obtain m index st m' where
    run: "run_ops ?ops Map.empty = (Inr (), m)" and ix: "getIndex m = Hash_list index"
    and pr: "\<forall>h. \<not> reserved h \<longrightarrow> (h \<in> set index \<longleftrightarrow> present h m)"
    and st: "getStats m = (Inr st, m')" "entryCount st = length index"
      "entryCount st = card {h. \<not> reserved h \<and> present h m}"
    by blast
  have "getIndex (snd (run_ops ?ops Map.empty)) = Hash_list [ascii ''cd'']"
    by (simp add: cm_set_def invalidate_def addToIndex_def removeFromIndex_def getIndex_def
        update_def getCacheKey_def CACHE_KEY_PREFIX_def CACHE_INDEX_KEY_def ascii_def Let_def)
  with run ix have index: "index = [ascii ''cd'']" by simp
  have ne: "ascii ''ab'' \<noteq> ascii ''cd''" by (simp add: ascii_def)
  have p: "present (ascii ''cd'') m" "\<not> present (ascii ''ab'') m"
    using pr r index ne by auto
  have c: "entryCount st = 1" "card {h. \<not> reserved h \<and> present h m} = 1"
    using st index by simp_all
  from r run ix index p st(1) c show ?thesis by blast
qed

theorem timestamp_frame_witness:
  "\<not> reserved (ascii ''ab'') \<and> ascii ''cd'' \<noteq> ascii ''ab'' \<and> exact_count 0 \<and>
   stored (ascii ''ab'') [getCacheKey (ascii ''ab'') \<mapsto> Entry_data (new_CacheEntry (ascii ''ab'') (ascii ''<svg/>'') 7 0)]
     = Some (new_CacheEntry (ascii ''ab'') (ascii ''<svg/>'') 7 0) \<and>
   fst (cm_get (ascii ''ab'') [getCacheKey (ascii ''ab'') \<mapsto> Entry_data (new_CacheEntry (ascii ''ab'') (ascii ''<svg/>'') 7 0)])
     = Inr (Some (new_CacheEntry (ascii ''ab'') (ascii ''<svg/>'') 7 1)) \<and>
   map_option timestamp (stored (ascii ''ab'')
      (snd (cm_get (ascii ''ab'') [getCacheKey (ascii ''ab'') \<mapsto> Entry_data (new_CacheEntry (ascii ''ab'') (ascii ''<svg/>'') 7 0)])))
     = Some 7 \<and>
   map_option timestamp (stored (ascii ''ab'')
      (snd (cm_set (ascii ''cd'') (new_CacheEntry (ascii ''cd'') (ascii ''<svg/>'') 9 0)
         [getCacheKey (ascii ''ab'') \<mapsto> Entry_data (new_CacheEntry (ascii ''ab'') (ascii ''<svg/>'') 7 0)])))
     = Some 7"
proof -
  let ?d = "new_CacheEntry (ascii ''ab'') (ascii ''<svg/>'') 7 0"
  let ?m = "[getCacheKey (ascii ''ab'') \<mapsto> Entry_data ?d]"
  have r: "\<not> reserved (ascii ''ab'')" by (simp add: reserved_iff ascii_def)
  have ne: "ascii ''cd'' \<noteq> ascii ''ab''" by (simp add: ascii_def)
  have st: "stored (ascii ''ab'') ?m = Some ?d" by (simp add: stored_def)
  have ts: "map_option timestamp (stored (ascii ''ab'') ?m) = Some 7"
    unfolding st by (simp add: new_CacheEntry_def)
  have ec: "exact_count (accessCount ?d)" "exact_count 0"
    by (simp_all add: exact_count_def new_CacheEntry_def)
  from timestamp_frame [where h = "ascii ''ab''" and h' = "ascii ''cd''" and m = ?m and d = ?d
      and e = "new_CacheEntry (ascii ''cd'') (ascii ''<svg/>'') 9 0", OF r] st ne ts r ec
    timestamp_frame [where h = "ascii ''ab''" and h' = "ascii ''ab''" and m = ?m and d = ?d
      and e = ?d, OF r]
  show ?thesis by (simp add: new_CacheEntry_def)
qed


section \<open>Properties of the regular expressions\<close>


lemma lit_eq:
  "lit s k (b, rest) =
     (if take (length s) rest = s then k (rev s @ b, drop (length s) rest) else None)"
proof (induction s arbitrary: b rest)
  case Nil
  then show ?case by simp
next
  case (Cons x xs)
  show ?case
  proof (cases rest)
    case Nil
    then show ?thesis by simp
  next
    case (Cons c cs)
    then show ?thesis using Cons.IH [of "c # b" cs] by auto
  qed
qed

lemma lit_append: "lit s k (b, s @ rest) = k (rev s @ b, rest)"
  by (simp add: lit_eq)

lemma greedy_run:
  assumes "\<forall>x \<in> set xs. p x" "rest = [] \<or> \<not> p (hd rest)" "k (rev xs @ b, rest) = Some r"
  shows "greedy p k (b, xs @ rest) = Some r"
  using assms
proof (induction xs arbitrary: b)
  case Nil
  then show ?case by (cases rest) auto
next
  case (Cons x xs)
  then have "greedy p k (x # b, xs @ rest) = Some r" by simp
  with Cons.prems show ?case by simp
qed

lemma greedy_none:
  assumes "rest = [] \<or> \<not> p (hd rest)"
  shows "greedy p k (b, rest) = k (b, rest)"
  using assms by (cases rest) auto

lemma search_skip:
  assumes "\<And>p1 p2. pre = p1 @ p2 \<Longrightarrow> p2 \<noteq> [] \<Longrightarrow> m (rev p1 @ b, p2 @ rest) = None"
  shows "search m (b, pre @ rest) = search m (rev pre @ b, rest)"
  using assms
proof (induction pre arbitrary: b)
  case Nil
  then show ?case by simp
next
  case (Cons c cs)
  have "m (b, (c # cs) @ rest) = None" using Cons.prems [of "[]" "c # cs"] by simp
  moreover have "search m (c # b, cs @ rest) = search m (rev cs @ c # b, rest)"
  proof (rule Cons.IH)
    fix p1 p2 assume "cs = p1 @ p2" "p2 \<noteq> []"
    then show "m (rev p1 @ c # b, p2 @ rest) = None"
      using Cons.prems [of "c # p1" p2] by simp
  qed
  ultimately show ?case by simp
qed

lemma search_here: "m (b, rest) = Some r \<Longrightarrow> search m (b, rest) = Some r"
  by (cases rest) auto

lemma str_includes_iff: "str_includes s t \<longleftrightarrow> (\<exists>p q. s = p @ t @ q)"
proof (induction s)
  case Nil
  then show ?case by auto
next
  case (Cons c cs)
  show ?case
  proof
    assume "str_includes (c # cs) t"
    then consider "take (length t) (c # cs) = t" | "str_includes cs t" by auto
    then show "\<exists>p q. c # cs = p @ t @ q"
    proof cases
      case 1
      then have "c # cs = [] @ t @ drop (length t) (c # cs)"
        by (metis append_Nil append_take_drop_id)
      then show ?thesis by blast
    next
      case 2
      with Cons.IH obtain p q where "cs = p @ t @ q" by auto
      then have "c # cs = (c # p) @ t @ q" by simp
      then show ?thesis by blast
    qed
  next
    assume "\<exists>p q. c # cs = p @ t @ q"
    then obtain p q where pq: "c # cs = p @ t @ q" by auto
    show "str_includes (c # cs) t"
    proof (cases p)
      case Nil
      with pq have "take (length t) (c # cs) = t" by simp
      then show ?thesis by simp
    next
      case (Cons x xs)
      with pq have "cs = xs @ t @ q" by simp
      with Cons.IH have "str_includes cs t" by blast
      then show ?thesis by simp
    qed
  qed
qed

subsection \<open>The compatibility directive\<close>

text \<open>
  The texts the pattern matches: \<open>\pgfplotsset\<close>, \<open>{\<close>, \<open>compat\<close>, \<open>=\<close>, a version
  and \<open>}\<close>, with blanks between them; and the directive written without blanks.
\<close>

definition PGFPLOTSSET :: jsstring where
  "PGFPLOTSSET = BACKSLASH # ascii ''pgfplotsset''"

definition spaced_directive ::
  "jsstring \<Rightarrow> jsstring \<Rightarrow> jsstring \<Rightarrow> jsstring \<Rightarrow> jsstring \<Rightarrow> jsstring \<Rightarrow> jsstring" where
  "spaced_directive w1 w2 w3 w4 x w5 =
     PGFPLOTSSET @ w1 @ ascii ''{'' @ w2 @ ascii ''compat'' @ w3 @ ascii ''='' @ w4 @ x @ w5 @
     ascii ''}''"

definition compat_directive :: "jsstring \<Rightarrow> jsstring" where
  "compat_directive x = spaced_directive [] [] [] [] x []"

definition blanks :: "jsstring \<Rightarrow> bool" where
  "blanks w \<longleftrightarrow> list_all isWhiteSpace w"

definition version :: "jsstring \<Rightarrow> bool" where
  "version x \<longleftrightarrow> x \<noteq> [] \<and> list_all isDigitOrDot x"

text \<open>The pattern matches at no position of \<open>pre\<close>, in the text \<open>pre @ rest\<close>.\<close>

definition no_match_inside :: "jsstring \<Rightarrow> jsstring \<Rightarrow> bool" where
  "no_match_inside pre rest \<longleftrightarrow>
     list_all (\<lambda>n. compat_regex (rev (take n pre), drop n pre @ rest) = None) [0..<length pre]"

lemma digit_not_space: "isDigitOrDot c \<Longrightarrow> \<not> isWhiteSpace c"
proof -
  assume d: "isDigitOrDot c"
  have "False" if "0x2000 \<le> c" "c \<le> 0x39"
    using order_trans [OF that] by simp
  with d show ?thesis
    by (auto simp: isDigitOrDot_def isWhiteSpace_def isLineTerminator_def)
qed

lemma greedy_blanks:
  assumes "blanks w" "rest \<noteq> []" "\<not> isWhiteSpace (hd rest)" "k (rev w @ b, rest) = Some r"
  shows "greedy isWhiteSpace k (b, w @ rest) = Some r"
  using assms by (intro greedy_run) (auto simp: blanks_def list_all_iff)

lemma compat_regex_spaced:
  assumes w: "blanks w1" "blanks w2" "blanks w3" "blanks w4" "blanks w5" and x: "version x"
  shows "compat_regex (b, spaced_directive w1 w2 w3 w4 x w5 @ post)
           = Some ((b, spaced_directive w1 w2 w3 w4 x w5 @ post),
                   (rev (spaced_directive w1 w2 w3 w4 x w5) @ b, post))"
proof -
  obtain d ds where xd: "x = d # ds" and d: "isDigitOrDot d" and ds: "\<forall>c \<in> set ds. isDigitOrDot c"
    using x by (cases x) (auto simp: version_def list_all_iff)
  let ?txt = "PGFPLOTSSET @ w1 @ ascii ''{'' @ w2 @ ascii ''compat'' @ w3 @ ascii ''='' @ w4 @
          (d # ds) @ w5 @ ascii ''}'' @ post"
  let ?c0 = "(b, ?txt)"
  let ?k = "\<lambda>c1. Some (?c0, c1)"
  have nd: "\<not> isDigitOrDot 0x7D" "\<not> isWhiteSpace 0x7D" "\<not> isWhiteSpace 0x7B"
    "\<not> isWhiteSpace 0x63" "\<not> isWhiteSpace 0x3D"
    by (simp_all add: isDigitOrDot_def isWhiteSpace_def isLineTerminator_def)
  have nw: "\<not> isWhiteSpace d" using d by (rule digit_not_space)
  let ?b1 = "rev PGFPLOTSSET @ b"
  let ?b2 = "rev (ascii ''{'') @ rev w1 @ ?b1"
  let ?b3 = "rev (ascii ''compat'') @ rev w2 @ ?b2"
  let ?b4 = "rev (ascii ''='') @ rev w3 @ ?b3"
  let ?b5 = "d # rev w4 @ ?b4"
  let ?b6 = "rev ds @ ?b5"
  let ?b7 = "rev (ascii ''}'') @ rev w5 @ ?b6"
  let ?r = "(?c0, (?b7, post))"
  let ?k7 = "lit (ascii ''}'') ?k"
  let ?k6 = "greedy isWhiteSpace ?k7"
  let ?k5 = "greedy isDigitOrDot ?k6"
  let ?k4 = "chr isDigitOrDot ?k5"
  let ?k3 = "lit (ascii ''='') (greedy isWhiteSpace ?k4)"
  let ?k2 = "lit (ascii ''compat'') (greedy isWhiteSpace ?k3)"
  let ?k1 = "lit (ascii ''{'') (greedy isWhiteSpace ?k2)"
  have s8: "?k7 (rev w5 @ ?b6, ascii ''}'' @ post) = Some ?r"
    by (simp only: lit_append)
  have s7: "?k6 (?b6, w5 @ ascii ''}'' @ post) = Some ?r"
    using w(5) _ _ s8 by (rule greedy_blanks) (simp_all add: ascii_def nd)
  have nx: "w5 @ ascii ''}'' @ post = [] \<or> \<not> isDigitOrDot (hd (w5 @ ascii ''}'' @ post))"
  proof (cases w5)
    case Nil
    then show ?thesis by (simp add: ascii_def nd)
  next
    case (Cons c cs)
    with w(5) have "isWhiteSpace c" by (simp add: blanks_def)
    then have "\<not> isDigitOrDot c" using digit_not_space by blast
    with Cons show ?thesis by simp
  qed
  have s6: "?k5 (?b5, ds @ w5 @ ascii ''}'' @ post) = Some ?r"
    by (rule greedy_run) (rule ds, rule nx, rule s7)
  have s5: "?k4 (rev w4 @ ?b4, (d # ds) @ w5 @ ascii ''}'' @ post) = Some ?r"
    using d s6 by simp
  have s4: "greedy isWhiteSpace ?k4 (?b4, w4 @ (d # ds) @ w5 @ ascii ''}'' @ post) = Some ?r"
    using w(4) _ _ s5 by (rule greedy_blanks) (simp_all add: nw)
  have s3': "?k3 (rev w3 @ ?b3, ascii ''='' @ w4 @ (d # ds) @ w5 @ ascii ''}'' @ post) = Some ?r"
    using s4 by (simp only: lit_append)
  have s3: "greedy isWhiteSpace ?k3
      (?b3, w3 @ ascii ''='' @ w4 @ (d # ds) @ w5 @ ascii ''}'' @ post) = Some ?r"
    using w(3) _ _ s3' by (rule greedy_blanks) (simp_all add: ascii_def nd)
  have s2': "?k2 (rev w2 @ ?b2,
      ascii ''compat'' @ w3 @ ascii ''='' @ w4 @ (d # ds) @ w5 @ ascii ''}'' @ post) = Some ?r"
    using s3 by (simp only: lit_append)
  have s2: "greedy isWhiteSpace ?k2
      (?b2, w2 @ ascii ''compat'' @ w3 @ ascii ''='' @ w4 @ (d # ds) @ w5 @ ascii ''}'' @ post)
      = Some ?r"
    using w(2) _ _ s2' by (rule greedy_blanks) (simp_all add: ascii_def nd)
  have s1': "?k1 (rev w1 @ ?b1,
      ascii ''{'' @ w2 @ ascii ''compat'' @ w3 @ ascii ''='' @ w4 @ (d # ds) @ w5 @ ascii ''}'' @ post)
      = Some ?r"
    using s2 by (simp only: lit_append)
  have s1: "greedy isWhiteSpace ?k1
      (?b1, w1 @ ascii ''{'' @ w2 @ ascii ''compat'' @ w3 @ ascii ''='' @ w4 @ (d # ds) @ w5 @
            ascii ''}'' @ post) = Some ?r"
    using w(1) _ _ s1' by (rule greedy_blanks) (simp_all add: ascii_def nd)
  have s0: "lit PGFPLOTSSET (greedy isWhiteSpace ?k1) (b, ?txt) = Some ?r"
    using s1 by (simp only: lit_append)
  have b7: "?b7 = rev (spaced_directive w1 w2 w3 w4 (d # ds) w5) @ b"
    by (simp add: spaced_directive_def)
  have t: "spaced_directive w1 w2 w3 w4 (d # ds) w5 @ post = ?txt"
    by (simp add: spaced_directive_def)
  have "compat_regex ?c0 = Some ?r"
    unfolding compat_regex_def PGFPLOTSSET_def [symmetric] by (rule s0)
  then show ?thesis unfolding xd b7 t .
qed

lemma search_no_match_inside:
  assumes "no_match_inside pre rest"
  shows "search compat_regex ([], pre @ rest) = search compat_regex (rev pre, rest)"
proof -
  have "search compat_regex ([], pre @ rest) = search compat_regex (rev pre @ [], rest)"
  proof (rule search_skip)
    fix p1 p2 assume p: "pre = p1 @ p2" "p2 \<noteq> []"
    then have "length p1 < length pre" by simp
    with assms have "compat_regex (rev (take (length p1) pre), drop (length p1) pre @ rest) = None"
      by (simp add: no_match_inside_def list_all_iff)
    with p show "compat_regex (rev p1 @ [], p2 @ rest) = None" by simp
  qed
  then show ?thesis by simp
qed

lemma downgrade_compat_first:
  assumes "blanks w1" "blanks w2" "blanks w3" "blanks w4" "blanks w5" and "version x"
    and "no_match_inside pre (spaced_directive w1 w2 w3 w4 x w5 @ post)"
  shows "downgrade_compat (pre @ spaced_directive w1 w2 w3 w4 x w5 @ post)
           = pre @ compat_directive (ascii ''1.16'') @ post"
proof -
  let ?d = "spaced_directive w1 w2 w3 w4 x w5"
  have "search compat_regex ([], pre @ ?d @ post) = search compat_regex (rev pre, ?d @ post)"
    using assms(7) by (rule search_no_match_inside)
  also have "\<dots> = Some ((rev pre, ?d @ post), (rev ?d @ rev pre, post))"
    using compat_regex_spaced [OF assms(1-6), of "rev pre" post] by (simp add: search_here)
  finally show ?thesis
    by (simp add: downgrade_compat_def compat_directive_def spaced_directive_def PGFPLOTSSET_def
        ascii_def)
qed



text \<open>
  A render request whose source sets a width and then the version, with blanks; the
  state is the one where its step has loaded the engine.
\<close>

definition width_then_compat :: jsstring where
  "width_then_compat =
     PGFPLOTSSET @ ascii ''{width=5cm}'' @ [LF] @
     spaced_directive [SP] [] [SP] [SP] (ascii ''1.18'') [SP] @ ascii ''%''"

definition about_to_call :: system where
  "about_to_call =
     system0\<lparr>steps := [\<lparr>step_hash = ascii ''h1'', step_source = width_then_compat,
                         step_pc = Loading\<rparr>]\<rparr>"

lemma width_then_compat_pre:
  "preprocessSource width_then_compat = (PGFPLOTSSET @ ascii ''{width=5cm}'' @ [LF]) @
     spaced_directive [SP] [] [SP] [SP] (ascii ''1.18'') [SP] @ ascii ''%''"
  by (simp add: width_then_compat_def preprocessSource_def replace_nbsp_def trim_def trimStart_def
      trimEnd_def spaced_directive_def PGFPLOTSSET_def BACKSLASH_def
      ascii_def LF_def SP_def NBSP_def isWhiteSpace_def isLineTerminator_def)

lemma width_then_compat_first:
  "no_match_inside (PGFPLOTSSET @ ascii ''{width=5cm}'' @ [LF])
     (spaced_directive [SP] [] [SP] [SP] (ascii ''1.18'') [SP] @ ascii ''%'')"
  by (simp add: no_match_inside_def compat_regex_def spaced_directive_def PGFPLOTSSET_def
      BACKSLASH_def ascii_def LF_def SP_def isWhiteSpace_def isLineTerminator_def)



section \<open>Properties of a failed render\<close>


definition BANG :: jschar where "BANG = 0x21"

lemma ascii_bang: "ascii ''!'' = [BANG]"
  by (simp add: ascii_def BANG_def)

lemma lazy_run:
  assumes "\<forall>x \<in> set xs. p x"
    and "\<And>p1 p2. xs = p1 @ p2 \<Longrightarrow> p2 \<noteq> [] \<Longrightarrow> k (rev p1 @ b, p2 @ rest) = None"
    and "k (rev xs @ b, rest) = Some r"
  shows "lazy p k (b, xs @ rest) = Some r"
  using assms
proof (induction xs arbitrary: b)
  case Nil
  then show ?case by (cases rest) auto
next
  case (Cons x xs)
  have n: "k (b, (x # xs) @ rest) = None" using Cons.prems(2) [of "[]" "x # xs"] by simp
  have "lazy p k (x # b, xs @ rest) = Some r"
  proof (rule Cons.IH)
    show "\<forall>x \<in> set xs. p x" using Cons.prems(1) by simp
    show "k (rev xs @ x # b, rest) = Some r" using Cons.prems(3) by simp
    fix p1 p2 assume "xs = p1 @ p2" "p2 \<noteq> []"
    then show "k (rev p1 @ x # b, p2 @ rest) = None"
      using Cons.prems(2) [of "x # p1" p2] by simp
  qed
  with n Cons.prems(1) show ?case by simp
qed

lemma between_append: "between (b, r) (rev xs @ b, r') = xs"
  by (simp add: between_def)

lemma TEX_ERROR_REGEX_no_bang:
  "rest = [] \<or> hd rest \<noteq> BANG \<Longrightarrow> TEX_ERROR_REGEX (b, rest) = None"
  by (cases rest) (auto simp: TEX_ERROR_REGEX_def ascii_bang)

lemma search_TEX_ERROR_REGEX_none:
  "BANG \<notin> set msg \<Longrightarrow> search TEX_ERROR_REGEX (b, msg) = None"
proof (induction msg arbitrary: b)
  case Nil
  then show ?case by (simp add: TEX_ERROR_REGEX_no_bang)
next
  case (Cons c cs)
  then have "TEX_ERROR_REGEX (b, c # cs) = None"
    by (intro TEX_ERROR_REGEX_no_bang) auto
  with Cons show ?case by simp
qed

lemma TEX_ERROR_REGEX_line:
  assumes "\<forall>c \<in> set body. \<not> isLineTerminator c" "rest = [] \<or> hd rest = LF"
  shows "TEX_ERROR_REGEX (b, BANG # body @ rest) = Some body"
proof -
  let ?c1 = "(BANG # b, body @ rest)"
  let ?k = "\<lambda>c2. alt (lit [LF] (\<lambda>c3. Some (between ?c1 c2)))
                     (eoi (\<lambda>c3. Some (between ?c1 c2))) c2"
  have "lazy (\<lambda>c. \<not> isLineTerminator c) ?k (BANG # b, body @ rest) = Some body"
  proof (rule lazy_run)
    show "\<forall>x \<in> set body. \<not> isLineTerminator x" by (rule assms(1))
    show "?k (rev body @ BANG # b, rest) = Some body"
      using assms(2) by (cases rest) (auto simp: alt_def eoi_def between_append)
    fix p1 p2 assume "body = p1 @ p2" "p2 \<noteq> []"
    then obtain c cs where "p2 = c # cs" "\<not> isLineTerminator c"
      using assms(1) by (cases p2) auto
    then show "?k (rev p1 @ BANG # b, p2 @ rest) = None"
      by (auto simp: alt_def eoi_def LF_def isLineTerminator_def)
  qed
  then show ?thesis by (simp add: TEX_ERROR_REGEX_def ascii_bang)
qed

lemma tex_error_text_marker:
  assumes "BANG \<notin> set pre" "\<forall>c \<in> set body. \<not> isLineTerminator c" "rest = [] \<or> hd rest = LF"
  shows "tex_error_text (pre @ BANG # body @ rest) = ascii ''TeX compilation failed: '' @ trim body"
proof -
  have "search TEX_ERROR_REGEX ([], pre @ BANG # body @ rest)
          = search TEX_ERROR_REGEX (rev pre @ [], BANG # body @ rest)"
  proof (rule search_skip)
    fix p1 p2 assume "pre = p1 @ p2" "p2 \<noteq> []"
    then have "hd (p2 @ BANG # body @ rest) \<noteq> BANG" using assms(1) by (cases p2) auto
    then show "TEX_ERROR_REGEX (rev p1 @ [], p2 @ BANG # body @ rest) = None"
      by (intro TEX_ERROR_REGEX_no_bang) simp
  qed
  also have "\<dots> = Some body"
    using TEX_ERROR_REGEX_line [OF assms(2,3)] by (simp add: search_here)
  finally show ?thesis by (simp add: tex_error_text_def)
qed

text \<open>
  A message of the engine in which \<open>!\<close> ends a line before the line of the TeX error;
  and one request to render, by \<open>retryBlock\<close>, whose engine call rejects with it.
\<close>

definition bang_before_marker :: jsstring where
  "bang_before_marker = ascii ''render failed!'' @ [LF] @ ascii ''! Undefined control sequence''"

definition rejected_with :: "jsstring \<Rightarrow> action list" where
  "rejected_with msg =
     [Call_retryBlock (ascii ''h1'') (ascii ''x'') a_document, Resume_retry 0, Step_begins 0,
      Engine_invoked 0, Engine_rejects 0 (new_Error msg)]"

lemmas run_eval = system0_def initial_def remove_nth_def append_step_def pc_of_def set_pc_def
  log_def with_pm_def step_fails_def Let_def invalidate_def removeFromIndex_def getIndex_def
  update_def engine_settles_def resume_retry_def CACHE_INDEX_KEY_def getCacheKey_def
  CACHE_KEY_PREFIX_def ascii_def

lemma extractTexError_bang_before_marker:
  "extractTexError (new_Error bang_before_marker) = Some (ascii ''TeX compilation failed: '')"
proof -
  have "tex_error_text (ascii ''render failed'' @ BANG # [] @ (LF # ascii ''! Undefined control sequence''))
          = ascii ''TeX compilation failed: '' @ trim []"
    by (rule tex_error_text_marker) (simp_all add: ascii_def BANG_def)
  then have "tex_error_text bang_before_marker = ascii ''TeX compilation failed: ''"
    by (simp add: trim_def trimStart_def trimEnd_def bang_before_marker_def ascii_def BANG_def)
  then show ?thesis
    by (simp add: new_Error_def message_or_string_def bang_before_marker_def ascii_def)
qed

text \<open>
  C3. The engine rejects with the message \<open>render failed!\<close>, newline,
  \<open>! Undefined control sequence\<close>: the failure is recovered, and the message stored in
  the memory cache is \<open>TeX compilation failed: \<close> with nothing after it. It does not
  contain the text of the line that starts with \<open>!\<close>: the pattern has no anchor and
  takes the first \<open>!\<close> of the message.
\<close>

theorem marker_line_lost:
  "\<exists>s. run stub_collaborators (rejected_with bang_before_marker) system0 = Some s \<and>
       svgCache (pm s) (ascii ''h1'') = Some (Failed (ascii ''TeX compilation failed: '')) \<and>
       \<not> str_includes (ascii ''TeX compilation failed: '') (ascii ''Undefined control sequence'')"
proof -
  let ?s = "run stub_collaborators (rejected_with bang_before_marker) system0"
  have "\<exists>s. ?s = Some s \<and>
       svgCache (pm s) (ascii ''h1'') = Some (Failed (ascii ''TeX compilation failed: ''))"
    using extractTexError_bang_before_marker [unfolded ascii_def]
    by (simp add: rejected_with_def run_eval)
  moreover have "\<not> str_includes (ascii ''TeX compilation failed: '') (ascii ''Undefined control sequence'')"
    by (simp add: ascii_def)
  ultimately show ?thesis by blast
qed


section \<open>Properties of the block extractor\<close>

text \<open>A document with two blocks whose sources differ in a blank only.\<close>

definition two_blocks :: TextDocument where
  "two_blocks =
     \<lparr>getText = ascii ''```tikz'' @ [LF] @ ascii ''ab'' @ [LF] @ ascii ''```'' @ [LF] @
                 ascii ''```tikz'' @ [LF] @ ascii '' ab'' @ [LF] @ ascii ''```'',
      uri = ascii ''a.md'', positionAt = (\<lambda>i. (0, nat i))\<rparr>"

lemmas regex_eval = TIKZ_BLOCK_REGEX_def ascii_def LF_def SP_def bol_def eol_def
  isLineTerminator_def isWhiteSpace_def canonicalize_def anyChar_def match_end_def

lemma two_blocks_hashes:
  "map block_hash (parse (generateHash stub_collaborators) two_blocks) = [ascii ''h:ab'', ascii ''h:ab'']"
  unfolding parse_def two_blocks_def
  apply (simp only: TextDocument.simps)
  apply (subst exec_all_Some, simp add: regex_eval)
  apply (subst exec_all_Some, simp add: regex_eval)
  apply (subst exec_all_None, simp add: regex_eval)
  apply (simp add: block_of_match_def between_def new_TikzBlock_def Let_def ascii_def LF_def
      stub_collaborators_def trim_def trimStart_def trimEnd_def isWhiteSpace_def isLineTerminator_def)
  done

text \<open>
  C9 fails on a fence with a blank between the backticks and the tag: the extractor
  returns no block for it, while the Markdown renderer's hook, which compares the
  trimmed info string \<open>(token.info || '').trim().toLowerCase()\<close> with \<open>tikz\<close>, takes
  the same fence for a TikZ block.
\<close>

theorem fence_blank_before_tag_not_extracted:
  "parse H
     \<lparr>getText = ascii ''``` tikz'' @ [LF] @ BACKSLASH # ascii ''draw (0,0) -- (1,1);'' @ [LF] @ ascii ''```'',
      uri = u, positionAt = p\<rparr> = []"
  unfolding parse_def
  apply (simp only: TextDocument.simps)
  apply (subst exec_all_None, simp add: regex_eval BACKSLASH_def)
  apply simp
  done


section \<open>Properties of the event loop\<close>

subsection \<open>What the actions do to the chain and to the trace\<close>

lemma steps_with_pm [simp]: "steps (with_pm f s) = steps s"
  and trace_with_pm [simp]: "trace (with_pm f s) = trace s"
  and passes_with_pm [simp]: "passes (with_pm f s) = passes s"
  and retries_with_pm [simp]: "retries (with_pm f s) = retries s"
  and pm_with_pm [simp]: "pm (with_pm f s) = f (pm s)"
  by (simp_all add: with_pm_def)

lemma steps_log [simp]: "steps (log e s) = steps s"
  and trace_log [simp]: "trace (log e s) = e # trace s"
  and passes_log [simp]: "passes (log e s) = passes s"
  and retries_log [simp]: "retries (log e s) = retries s"
  and pm_log [simp]: "pm (log e s) = pm s"
  by (simp_all add: log_def)

lemma pcs_set_pc [simp]:
  "map step_pc (steps (set_pc t pc s)) = (map step_pc (steps s))[t := pc]"
  by (simp add: set_pc_def map_update)

lemma hashes_set_pc [simp]:
  "map step_hash (steps (set_pc t pc s)) = map step_hash (steps s)"
proof (cases "t < length (steps s)")
  case True
  then have "(map step_hash (steps s))[t := step_hash (steps s ! t)] = map step_hash (steps s)"
    by (simp add: list_update_same_conv)
  then show ?thesis by (simp add: set_pc_def map_update)
next
  case False
  then have "(steps s)[t := (steps s ! t)\<lparr>step_pc := pc\<rparr>] = steps s"
    by (intro list_update_beyond) simp
  then show ?thesis by (simp add: set_pc_def)
qed

lemma length_steps_set_pc [simp]: "length (steps (set_pc t pc s)) = length (steps s)"
  by (simp add: set_pc_def)

lemma trace_set_pc [simp]: "trace (set_pc t pc s) = trace s"
  and passes_set_pc [simp]: "passes (set_pc t pc s) = passes s"
  and retries_set_pc [simp]: "retries (set_pc t pc s) = retries s"
  and pm_set_pc [simp]: "pm (set_pc t pc s) = pm s"
  by (simp_all add: set_pc_def)

lemma advance_pass_chain [simp]:
  "steps (advance_pass document blocks s) = steps s"
  "trace (advance_pass document blocks s) = trace s"
  "retries (advance_pass document blocks s) = retries s"
  by (induction blocks) (simp_all split: prod.splits)

lemma extractTexError_timeout_error: "extractTexError (timeout_error env) \<noteq> None"
  by (simp add: timeout_error_def new_Error_def Let_def)

lemma extractTexError_thrown: "extractTexError (thrown e) \<noteq> None"
  by (cases e) simp_all

text \<open>The invariant of the chain, on the program counters of the steps and the trace.\<close>

definition fin_ok :: "step_pc list \<Rightarrow> event list \<Rightarrow> bool" where
  "fin_ok pcs tr \<longleftrightarrow>
     (\<forall>t < length pcs. pcs ! t = Finished \<longrightarrow>
        Step_finished t \<in> set tr \<and>
        (Engine_started t \<in> set tr \<longrightarrow> Engine_finished t \<in> set tr \<or> Timed_out t \<in> set tr))"

definition settled :: "step_pc \<Rightarrow> bool" where
  "settled pc \<longleftrightarrow> pc = Finished \<or> pc = Broken"

definition pred_ok :: "step_pc list \<Rightarrow> bool" where
  "pred_ok pcs \<longleftrightarrow>
     (\<forall>t < length pcs.
        (pcs ! t \<noteq> Queued \<and> pcs ! t \<noteq> Broken \<longrightarrow> (\<forall>t' < t. pcs ! t' = Finished)) \<and>
        (pcs ! t = Broken \<longrightarrow> (\<forall>t' < t. settled (pcs ! t'))))"

definition pers_ok :: "step_pc list \<Rightarrow> event list \<Rightarrow> bool" where
  "pers_ok pcs tr \<longleftrightarrow>
     (\<forall>t < length pcs. \<forall>r. pcs ! t = Persisting r \<longrightarrow> Engine_finished t \<in> set tr)"

definition fresh_ok :: "step_pc list \<Rightarrow> event list \<Rightarrow> bool" where
  "fresh_ok pcs tr \<longleftrightarrow>
     (\<forall>t < length pcs. pcs ! t = Queued \<or> pcs ! t = Loading \<longrightarrow> Engine_started t \<notin> set tr)"

definition bound_ok :: "step_pc list \<Rightarrow> event list \<Rightarrow> bool" where
  "bound_ok pcs tr \<longleftrightarrow> (\<forall>t. Engine_started t \<in> set tr \<longrightarrow> t < length pcs)"

definition chain_inv :: "step_pc list \<Rightarrow> event list \<Rightarrow> bool" where
  "chain_inv pcs tr \<longleftrightarrow>
     chain_order tr \<and> fin_ok pcs tr \<and> pred_ok pcs \<and> pers_ok pcs tr \<and> fresh_ok pcs tr \<and>
     bound_ok pcs tr"

lemma chain_inv_initial: "chain_inv [] []"
  by (simp add: chain_inv_def fin_ok_def pred_ok_def pers_ok_def fresh_ok_def bound_ok_def)

lemma pred_okD:
  assumes "pred_ok pcs" "t < length pcs" "t' < t"
  shows "pcs ! t \<noteq> Queued \<Longrightarrow> pcs ! t \<noteq> Broken \<Longrightarrow> pcs ! t' = Finished"
    and "pcs ! t \<noteq> Queued \<Longrightarrow> settled (pcs ! t')"
proof -
  from assms have a: "pcs ! t \<noteq> Queued \<and> pcs ! t \<noteq> Broken \<longrightarrow> pcs ! t' = Finished"
    and b: "pcs ! t = Broken \<longrightarrow> settled (pcs ! t')"
    unfolding pred_ok_def by blast+
  from a show "pcs ! t \<noteq> Queued \<Longrightarrow> pcs ! t \<noteq> Broken \<Longrightarrow> pcs ! t' = Finished" by simp
  from a b show "pcs ! t \<noteq> Queued \<Longrightarrow> settled (pcs ! t')"
    by (cases "pcs ! t = Broken") (simp_all add: settled_def)
qed

lemma chain_inv_append:
  assumes "chain_inv pcs tr"
  shows "chain_inv (pcs @ [Queued]) tr"
proof -
  from assms have co: "chain_order tr" and f: "fin_ok pcs tr" and p: "pred_ok pcs"
    and e: "pers_ok pcs tr" and n: "fresh_ok pcs tr" and b: "bound_ok pcs tr"
    by (simp_all add: chain_inv_def)
  have nth: "(pcs @ [Queued]) ! t = (if t < length pcs then pcs ! t else Queued)"
    if "t < Suc (length pcs)" for t
    using that by (auto simp: nth_append less_Suc_eq)
  have f': "fin_ok (pcs @ [Queued]) tr"
    unfolding fin_ok_def
  proof (intro allI impI)
    fix t assume "t < length (pcs @ [Queued])" "(pcs @ [Queued]) ! t = Finished"
    then have "t < length pcs" "pcs ! t = Finished" using nth [of t] by (auto split: if_splits)
    with f show "Step_finished t \<in> set tr \<and>
        (Engine_started t \<in> set tr \<longrightarrow> Engine_finished t \<in> set tr \<or> Timed_out t \<in> set tr)"
      by (simp add: fin_ok_def)
  qed
  have p': "pred_ok (pcs @ [Queued])"
    unfolding pred_ok_def
  proof (intro allI impI conjI)
    fix t t' assume t: "t < length (pcs @ [Queued])" and lt: "t' < t"
      and q: "(pcs @ [Queued]) ! t \<noteq> Queued \<and> (pcs @ [Queued]) ! t \<noteq> Broken"
    then have "t < length pcs" "pcs ! t \<noteq> Queued" "pcs ! t \<noteq> Broken"
      using nth [of t] by (auto split: if_splits)
    with p lt have "pcs ! t' = Finished" by (simp add: pred_okD)
    then show "(pcs @ [Queued]) ! t' = Finished"
      using lt \<open>t < length pcs\<close> by (simp add: nth_append)
  next
    fix t t' assume t: "t < length (pcs @ [Queued])" and lt: "t' < t"
      and q: "(pcs @ [Queued]) ! t = Broken"
    then have "t < length pcs" "pcs ! t \<noteq> Queued"
      using nth [of t] by (auto split: if_splits)
    with p lt have "settled (pcs ! t')" by (simp add: pred_okD)
    then show "settled ((pcs @ [Queued]) ! t')"
      using lt \<open>t < length pcs\<close> by (simp add: nth_append)
  qed
  have e': "pers_ok (pcs @ [Queued]) tr"
    unfolding pers_ok_def
  proof (intro allI impI)
    fix t r assume "t < length (pcs @ [Queued])" "(pcs @ [Queued]) ! t = Persisting r"
    then have "t < length pcs" "pcs ! t = Persisting r" using nth [of t] by (auto split: if_splits)
    with e show "Engine_finished t \<in> set tr" by (simp add: pers_ok_def)
  qed
  have n': "fresh_ok (pcs @ [Queued]) tr"
    unfolding fresh_ok_def
  proof (intro allI impI)
    fix t assume t: "t < length (pcs @ [Queued])"
      and q: "(pcs @ [Queued]) ! t = Queued \<or> (pcs @ [Queued]) ! t = Loading"
    show "Engine_started t \<notin> set tr"
    proof (cases "t < length pcs")
      case True
      with q have "pcs ! t = Queued \<or> pcs ! t = Loading" by (simp add: nth_append)
      with n True show ?thesis by (auto simp: fresh_ok_def)
    next
      case False
      with b show ?thesis by (auto simp: bound_ok_def)
    qed
  qed
  have b': "bound_ok (pcs @ [Queued]) tr"
    using b by (auto simp: bound_ok_def less_Suc_eq)
  from co f' p' e' n' b' show ?thesis by (simp add: chain_inv_def)
qed

text \<open>A step that has not settled moves on; the trace grows by events of that step.\<close>

lemma chain_inv_update:
  assumes inv: "chain_inv pcs tr" and t: "t < length pcs"
    and old: "\<not> settled (pcs ! t)"
    and co: "chain_order tr'" and sub: "set tr \<subseteq> set tr'"
    and fin: "v = Finished \<Longrightarrow>
                Step_finished t \<in> set tr' \<and>
                (Engine_started t \<in> set tr' \<longrightarrow>
                   Engine_finished t \<in> set tr' \<or> Timed_out t \<in> set tr')"
    and pre: "v \<noteq> Queued \<Longrightarrow> v \<noteq> Broken \<Longrightarrow> \<forall>t' < t. pcs ! t' = Finished"
    and pre2: "v = Broken \<Longrightarrow> \<forall>t' < t. settled (pcs ! t')"
    and per: "\<And>r. v = Persisting r \<Longrightarrow> Engine_finished t \<in> set tr'"
    and bwd: "v = Queued \<or> v = Loading \<Longrightarrow> pcs ! t = Queued \<or> pcs ! t = Loading"
    and new: "\<And>u. Engine_started u \<in> set tr' \<Longrightarrow>
                Engine_started u \<in> set tr \<or> (u = t \<and> v \<noteq> Queued \<and> v \<noteq> Loading)"
  shows "chain_inv (pcs[t := v]) tr'"
proof -
  from inv have f: "fin_ok pcs tr" and p: "pred_ok pcs"
    and e: "pers_ok pcs tr" and n: "fresh_ok pcs tr" and b: "bound_ok pcs tr"
    by (simp_all add: chain_inv_def)
  have before: "u' \<noteq> t" if "u < length pcs" "pcs ! u \<noteq> Queued" "u \<noteq> t" "u' < u" for u u'
  proof
    assume "u' = t"
    with that have "t < u" by simp
    with p that(1,2) have "settled (pcs ! t)" by (simp add: pred_okD)
    with old show False by simp
  qed
  have f': "fin_ok (pcs[t := v]) tr'"
    unfolding fin_ok_def
  proof (intro allI impI)
    fix u assume u: "u < length (pcs[t := v])" and uf: "pcs[t := v] ! u = Finished"
    show "Step_finished u \<in> set tr' \<and>
      (Engine_started u \<in> set tr' \<longrightarrow> Engine_finished u \<in> set tr' \<or> Timed_out u \<in> set tr')"
    proof (cases "u = t")
      case True
      with uf t have "v = Finished" by simp
      with fin True show ?thesis by simp
    next
      case False
      with uf u have "pcs ! u = Finished" "u < length pcs" by simp_all
      with f have *: "Step_finished u \<in> set tr \<and>
        (Engine_started u \<in> set tr \<longrightarrow> Engine_finished u \<in> set tr \<or> Timed_out u \<in> set tr)"
        by (simp add: fin_ok_def)
      show ?thesis
      proof (intro conjI impI)
        from * sub show "Step_finished u \<in> set tr'" by blast
      next
        assume "Engine_started u \<in> set tr'"
        from new [OF this] False have "Engine_started u \<in> set tr" by simp
        with * sub show "Engine_finished u \<in> set tr' \<or> Timed_out u \<in> set tr'" by blast
      qed
    qed
  qed
  have p': "pred_ok (pcs[t := v])"
    unfolding pred_ok_def
  proof (intro allI impI conjI)
    fix u u' assume u: "u < length (pcs[t := v])" and lt: "u' < u"
      and nq: "pcs[t := v] ! u \<noteq> Queued \<and> pcs[t := v] ! u \<noteq> Broken"
    show "pcs[t := v] ! u' = Finished"
    proof (cases "u = t")
      case True
      with nq t have "v \<noteq> Queued" "v \<noteq> Broken" by simp_all
      with pre True lt have "pcs ! u' = Finished" by simp
      moreover from True lt have "u' \<noteq> t" by simp
      ultimately show ?thesis by simp
    next
      case False
      with nq u have *: "pcs ! u \<noteq> Queued" "pcs ! u \<noteq> Broken" "u < length pcs" by simp_all
      with p lt have "pcs ! u' = Finished" by (simp add: pred_okD)
      moreover from before [OF *(3) *(1) False lt] have "u' \<noteq> t" .
      ultimately show ?thesis by simp
    qed
  next
    fix u u' assume u: "u < length (pcs[t := v])" and lt: "u' < u"
      and br: "pcs[t := v] ! u = Broken"
    show "settled (pcs[t := v] ! u')"
    proof (cases "u = t")
      case True
      with br t have "v = Broken" by simp
      with pre2 True lt have "settled (pcs ! u')" by simp
      moreover from True lt have "u' \<noteq> t" by simp
      ultimately show ?thesis by simp
    next
      case False
      with br u have *: "pcs ! u = Broken" "u < length pcs" by simp_all
      then have nq: "pcs ! u \<noteq> Queued" by simp
      with p lt * have "settled (pcs ! u')" by (simp add: pred_okD)
      moreover from before [OF *(2) nq False lt] have "u' \<noteq> t" .
      ultimately show ?thesis by simp
    qed
  qed
  have e': "pers_ok (pcs[t := v]) tr'"
    unfolding pers_ok_def
  proof (intro allI impI)
    fix u r assume u: "u < length (pcs[t := v])" and up: "pcs[t := v] ! u = Persisting r"
    show "Engine_finished u \<in> set tr'"
    proof (cases "u = t")
      case True
      with up t have "v = Persisting r" by simp
      with per True show ?thesis by simp
    next
      case False
      with up u have "pcs ! u = Persisting r" "u < length pcs" by simp_all
      with e have "Engine_finished u \<in> set tr" by (simp add: pers_ok_def)
      with sub show ?thesis by blast
    qed
  qed
  have n': "fresh_ok (pcs[t := v]) tr'"
    unfolding fresh_ok_def
  proof (intro allI impI)
    fix u assume u: "u < length (pcs[t := v])"
      and q: "pcs[t := v] ! u = Queued \<or> pcs[t := v] ! u = Loading"
    show "Engine_started u \<notin> set tr'"
    proof
      assume "Engine_started u \<in> set tr'"
      from new [OF this] show False
      proof
        assume st: "Engine_started u \<in> set tr"
        show False
        proof (cases "u = t")
          case True
          from q True t have "v = Queued \<or> v = Loading" by simp
          from bwd [OF this] have "pcs ! t = Queued \<or> pcs ! t = Loading" .
          with n t have "Engine_started t \<notin> set tr" by (auto simp: fresh_ok_def)
          with st True show False by simp
        next
          case False
          with q u have "pcs ! u = Queued \<or> pcs ! u = Loading" "u < length pcs" by simp_all
          with n st show False by (auto simp: fresh_ok_def)
        qed
      next
        assume "u = t \<and> v \<noteq> Queued \<and> v \<noteq> Loading"
        with q t show False by simp
      qed
    qed
  qed
  have b': "bound_ok (pcs[t := v]) tr'"
    unfolding bound_ok_def
  proof (intro allI impI)
    fix u assume "Engine_started u \<in> set tr'"
    from new [OF this] show "u < length (pcs[t := v])"
      using b t by (auto simp: bound_ok_def)
  qed
  from co f' p' e' n' b' show ?thesis by (simp add: chain_inv_def)
qed

text \<open>An event that is no engine call is added to the trace.\<close>

lemma chain_inv_log:
  assumes inv: "chain_inv pcs tr" and ord: "event_in_order e tr"
    and e: "\<And>u. e \<noteq> Engine_started u"
  shows "chain_inv pcs (e # tr)"
proof -
  from inv have co: "chain_order tr" and f: "fin_ok pcs tr" and p: "pred_ok pcs"
    and pe: "pers_ok pcs tr" and n: "fresh_ok pcs tr" and b: "bound_ok pcs tr"
    by (simp_all add: chain_inv_def)
  from co ord have co': "chain_order (e # tr)" by simp
  from f have f': "fin_ok pcs (e # tr)" using e by (auto simp: fin_ok_def)
  from pe have pe': "pers_ok pcs (e # tr)" by (auto simp: pers_ok_def)
  from n have n': "fresh_ok pcs (e # tr)" using e by (auto simp: fresh_ok_def)
  from b have b': "bound_ok pcs (e # tr)" using e by (auto simp: bound_ok_def)
  from co' f' p pe' n' b' show ?thesis by (simp add: chain_inv_def)
qed

text \<open>The step at the head of the queue begins.\<close>

lemma chain_inv_begin:
  assumes inv: "chain_inv pcs tr" and t: "t < length pcs" and q: "pcs ! t = Queued"
    and before: "t = 0 \<or> pcs ! (t - 1) = Finished"
  shows "chain_inv (pcs[t := Loading]) tr"
proof (rule chain_inv_update [OF inv t])
  from q show "\<not> settled (pcs ! t)" by (simp add: settled_def)
  from inv show "chain_order tr" by (simp add: chain_inv_def)
  show "set tr \<subseteq> set tr" by simp
  show "\<forall>t' < t. pcs ! t' = Finished"
  proof (intro allI impI)
    fix t' assume lt: "t' < t"
    with before have fin: "pcs ! (t - 1) = Finished" and pos: "0 < t" by auto
    show "pcs ! t' = Finished"
    proof (cases "t' = t - 1")
      case True with fin show ?thesis by simp
    next
      case False
      with lt have "t' < t - 1" by simp
      moreover from t have "t - 1 < length pcs" by simp
      moreover from fin have "pcs ! (t - 1) \<noteq> Queued" "pcs ! (t - 1) \<noteq> Broken" by simp_all
      moreover from inv have "pred_ok pcs" by (simp add: chain_inv_def)
      ultimately show ?thesis by (simp add: pred_okD)
    qed
  qed
  from q show "pcs ! t = Queued \<or> pcs ! t = Loading" by simp
  show "\<And>u. Engine_started u \<in> set tr \<Longrightarrow>
          Engine_started u \<in> set tr \<or> (u = t \<and> Loading \<noteq> Queued \<and> Loading \<noteq> Loading)"
    by simp
qed simp_all

text \<open>The engine is called by the step that has loaded it.\<close>

lemma chain_inv_invoke:
  assumes inv: "chain_inv pcs tr" and t: "t < length pcs" and l: "pcs ! t = Loading"
  shows "chain_inv (pcs[t := Racing]) (Engine_started t # tr)"
proof (rule chain_inv_update [OF inv t])
  from inv have co: "chain_order tr" and f: "fin_ok pcs tr" and p: "pred_ok pcs"
    and n: "fresh_ok pcs tr" and b: "bound_ok pcs tr"
    by (simp_all add: chain_inv_def)
  from p t l have prior: "\<forall>t' < t. pcs ! t' = Finished" by (simp add: pred_okD)
  from l show "\<not> settled (pcs ! t)" by (simp add: settled_def)
  have a: "list_all (\<lambda>u. Step_finished u \<in> set tr \<and>
             (Engine_started u \<in> set tr \<longrightarrow> Engine_finished u \<in> set tr \<or> Timed_out u \<in> set tr))
             [0..<t]"
    unfolding list_all_iff
  proof
    fix u assume "u \<in> set [0..<t]"
    then have "u < t" by simp
    with prior t have "u < length pcs" "pcs ! u = Finished" by simp_all
    with f show "Step_finished u \<in> set tr \<and>
             (Engine_started u \<in> set tr \<longrightarrow> Engine_finished u \<in> set tr \<or> Timed_out u \<in> set tr)"
      by (simp add: fin_ok_def)
  qed
  have c: "list_all (started_before t) tr"
    unfolding list_all_iff
  proof
    fix e assume e: "e \<in> set tr"
    show "started_before t e"
    proof (cases e)
      case (Engine_started u)
      with e b have u: "u < length pcs" by (simp add: bound_ok_def)
      from e Engine_started n u have nq: "pcs ! u \<noteq> Queued" and nl: "pcs ! u \<noteq> Loading"
        by (auto simp: fresh_ok_def)
      from nl l have "u \<noteq> t" by auto
      moreover have "\<not> t < u"
      proof
        assume "t < u"
        with p u nq have "settled (pcs ! t)" by (simp add: pred_okD)
        with l show False by (simp add: settled_def)
      qed
      ultimately have "u < t" by simp
      with Engine_started show ?thesis by simp
    qed simp_all
  qed
  from co a c show "chain_order (Engine_started t # tr)" by simp
  show "set tr \<subseteq> set (Engine_started t # tr)" by auto
  from prior show "\<forall>t' < t. pcs ! t' = Finished" .
  show "\<And>u. Engine_started u \<in> set (Engine_started t # tr) \<Longrightarrow>
          Engine_started u \<in> set tr \<or> (u = t \<and> Racing \<noteq> Queued \<and> Racing \<noteq> Loading)"
    by auto
qed simp_all

text \<open>The race is won by the engine's answer, whose arrival is in the trace.\<close>

lemma chain_inv_persist:
  assumes inv: "chain_inv pcs tr" and t: "t < length pcs" and l: "pcs ! t = Racing"
    and e: "Engine_finished t \<in> set tr"
  shows "chain_inv (pcs[t := Persisting r]) tr"
proof (rule chain_inv_update [OF inv t])
  from inv have p: "pred_ok pcs" by (simp add: chain_inv_def)
  from l show "\<not> settled (pcs ! t)" by (simp add: settled_def)
  from inv show "chain_order tr" by (simp add: chain_inv_def)
  from p t l show "\<forall>t' < t. pcs ! t' = Finished" by (simp add: pred_okD)
  from e show "\<And>r'. Persisting r = Persisting r' \<Longrightarrow> Engine_finished t \<in> set tr" by simp
  show "\<And>u. Engine_started u \<in> set tr \<Longrightarrow>
          Engine_started u \<in> set tr \<or> (u = t \<and> Persisting r \<noteq> Queued \<and> Persisting r \<noteq> Loading)"
    by simp
qed simp_all

text \<open>A step finishes.\<close>

lemma chain_inv_finish:
  assumes inv: "chain_inv pcs tr" and t: "t < length pcs"
    and l: "pcs ! t \<noteq> Queued" "\<not> settled (pcs ! t)"
    and e: "Engine_started t \<in> set tr \<Longrightarrow> Engine_finished t \<in> set tr \<or> Timed_out t \<in> set tr"
  shows "chain_inv (pcs[t := Finished]) (Step_finished t # tr)"
proof (rule chain_inv_update [OF inv t])
  from inv have p: "pred_ok pcs" by (simp add: chain_inv_def)
  from l show "\<not> settled (pcs ! t)" by simp
  from inv show "chain_order (Step_finished t # tr)" by (simp add: chain_inv_def)
  show "set tr \<subseteq> set (Step_finished t # tr)" by auto
  from p t l show "\<forall>t' < t. pcs ! t' = Finished" by (simp add: pred_okD settled_def)
  from e show "Step_finished t \<in> set (Step_finished t # tr) \<and>
     (Engine_started t \<in> set (Step_finished t # tr) \<longrightarrow>
        Engine_finished t \<in> set (Step_finished t # tr) \<or> Timed_out t \<in> set (Step_finished t # tr))"
    by auto
  show "\<And>u. Engine_started u \<in> set (Step_finished t # tr) \<Longrightarrow>
          Engine_started u \<in> set tr \<or> (u = t \<and> Finished \<noteq> Queued \<and> Finished \<noteq> Loading)"
    by simp
qed simp_all

text \<open>A step is broken: its \<open>catch\<close> throws, or the step before it is broken.\<close>

lemma chain_inv_break:
  assumes inv: "chain_inv pcs tr" and t: "t < length pcs"
    and l: "\<not> settled (pcs ! t)" and before: "\<forall>t' < t. settled (pcs ! t')"
  shows "chain_inv (pcs[t := Broken]) tr"
proof (rule chain_inv_update [OF inv t])
  from l show "\<not> settled (pcs ! t)" .
  from inv show "chain_order tr" by (simp add: chain_inv_def)
  from before show "\<forall>t' < t. settled (pcs ! t')" .
  show "\<And>u. Engine_started u \<in> set tr \<Longrightarrow>
          Engine_started u \<in> set tr \<or> (u = t \<and> Broken \<noteq> Queued \<and> Broken \<noteq> Loading)"
    by simp
qed simp_all


subsection \<open>The invariant along a run\<close>

definition chain_ok :: "system \<Rightarrow> bool" where
  "chain_ok s \<longleftrightarrow> chain_inv (map step_pc (steps s)) (trace s)"

definition pass_ok :: "system \<Rightarrow> bool" where
  "pass_ok s \<longleftrightarrow>
     (passes s = [] \<and> \<not> isRendering (pm s)) \<or> (length (passes s) = 1 \<and> isRendering (pm s))"

lemma chain_ok_frame [simp]:
  "chain_ok (with_pm f s) = chain_ok s"
  "chain_ok (s\<lparr>pm := p\<rparr>) = chain_ok s"
  "chain_ok (s\<lparr>dark_theme := d\<rparr>) = chain_ok s"
  "chain_ok (s\<lparr>passes := ps\<rparr>) = chain_ok s"
  "chain_ok (s\<lparr>retries := rs\<rparr>) = chain_ok s"
  "chain_ok (s\<lparr>engine_running := es\<rparr>) = chain_ok s"
  "chain_ok (advance_pass document blocks s) = chain_ok s"
  by (simp_all add: chain_ok_def)

lemma chain_ok_append_step:
  "chain_ok s \<Longrightarrow> chain_ok (snd (append_step h src s))"
  by (simp add: chain_ok_def append_step_def chain_inv_append)

lemma chain_ok_log:
  "chain_ok s \<Longrightarrow> event_in_order e (trace s) \<Longrightarrow> (\<And>u. e \<noteq> Engine_started u) \<Longrightarrow>
   chain_ok (log e s)"
  by (simp add: chain_ok_def chain_inv_log)

lemma chain_ok_begin:
  "chain_ok s \<Longrightarrow> t < length (steps s) \<Longrightarrow> pc_of s t = Queued \<Longrightarrow>
   t = 0 \<or> pc_of s (t - 1) = Finished \<Longrightarrow> chain_ok (set_pc t Loading s)"
  unfolding chain_ok_def pcs_set_pc trace_set_pc
  by (rule chain_inv_begin) (auto simp: pc_of_def)

lemma chain_ok_invoke:
  "chain_ok s \<Longrightarrow> t < length (steps s) \<Longrightarrow> pc_of s t = Loading \<Longrightarrow>
   chain_ok (log (Engine_started t) (set_pc t Racing s))"
  unfolding chain_ok_def pcs_set_pc trace_set_pc steps_log trace_log
  by (rule chain_inv_invoke) (auto simp: pc_of_def)

lemma chain_ok_pred:
  "chain_ok s \<Longrightarrow> pred_ok (map step_pc (steps s))"
  by (simp add: chain_ok_def chain_inv_def)

lemma chain_ok_break:
  assumes ok: "chain_ok s" and t: "t < length (steps s)"
    and l: "\<not> settled (pc_of s t)" and b: "\<forall>t' < t. settled (pc_of s t')"
  shows "chain_ok (set_pc t Broken s)"
  unfolding chain_ok_def pcs_set_pc trace_set_pc
proof (rule chain_inv_break)
  from ok show "chain_inv (map step_pc (steps s)) (trace s)" by (simp add: chain_ok_def)
  from t show "t < length (map step_pc (steps s))" by simp
  from l t show "\<not> settled (map step_pc (steps s) ! t)" by (simp add: pc_of_def)
  from b t show "\<forall>t' < t. settled (map step_pc (steps s) ! t')" by (simp add: pc_of_def)
qed

text \<open>What the \<open>catch\<close> of a step leaves, when it returns and when it throws.\<close>

lemma step_fails_cases:
  obtains msg where "extractTexError err = Some msg"
      "step_fails t err s = log (Step_finished t) (set_pc t Finished
         (with_pm (\<lambda>p. p\<lparr>svgCache := (svgCache p)(step_hash (steps s ! t) \<mapsto> Failed msg)\<rparr>) s))"
    | "extractTexError err = None" "step_fails t err s = set_pc t Broken s"
  by (cases "extractTexError err") (simp_all add: step_fails_def Let_def)

lemma step_fails_frame [simp]:
  "passes (step_fails t err s) = passes s"
  "retries (step_fails t err s) = retries s"
  "isRendering (pm (step_fails t err s)) = isRendering (pm s)"
  "map step_hash (steps (step_fails t err s)) = map step_hash (steps s)"
  by (rule step_fails_cases [of err t s]; simp)+

lemma pcs_race_won:
  "\<exists>r. map step_pc (steps (race_won env t svg_text s)) = (map step_pc (steps s))[t := Persisting r]"
  by (auto simp: race_won_def Let_def split: prod.splits)

lemma race_won_frame [simp]:
  "trace (race_won env t svg_text s) = trace s"
  "passes (race_won env t svg_text s) = passes s"
  "retries (race_won env t svg_text s) = retries s"
  "isRendering (pm (race_won env t svg_text s)) = isRendering (pm s)"
  "map step_hash (steps (race_won env t svg_text s)) = map step_hash (steps s)"
  by (simp_all add: race_won_def Let_def split: prod.splits)

lemma chain_ok_step_fails:
  assumes ok: "chain_ok s" and t: "t < length (steps s)"
    and q: "pc_of s t \<noteq> Queued" and l: "\<not> settled (pc_of s t)"
    and e: "Engine_started t \<in> set (trace s) \<Longrightarrow>
           Engine_finished t \<in> set (trace s) \<or> Timed_out t \<in> set (trace s)"
  shows "chain_ok (step_fails t err s)"
proof (rule step_fails_cases [of err t s])
  fix msg
  assume s': "step_fails t err s = log (Step_finished t) (set_pc t Finished
         (with_pm (\<lambda>p. p\<lparr>svgCache := (svgCache p)(step_hash (steps s ! t) \<mapsto> Failed msg)\<rparr>) s))"
  have "chain_inv ((map step_pc (steps s))[t := Finished]) (Step_finished t # trace s)"
    using ok t q l e by (intro chain_inv_finish) (simp_all add: chain_ok_def pc_of_def)
  then show ?thesis by (simp add: s' chain_ok_def)
next
  assume s': "step_fails t err s = set_pc t Broken s"
  have "\<forall>t' < t. settled (pc_of s t')"
  proof (intro allI impI)
    fix t' assume "t' < t"
    with chain_ok_pred [OF ok] t q have "settled (map step_pc (steps s) ! t')"
      by (intro pred_okD(2) [of _ t]) (simp_all add: pc_of_def)
    with \<open>t' < t\<close> t show "settled (pc_of s t')" by (simp add: pc_of_def)
  qed
  with ok t l show ?thesis unfolding s' by (rule chain_ok_break)
qed

lemma chain_ok_race_won:
  assumes "chain_ok s" "t < length (steps s)" "pc_of s t = Racing"
    and "Engine_finished t \<in> set (trace s)"
  shows "chain_ok (race_won env t svg_text s)"
proof -
  obtain r where r: "map step_pc (steps (race_won env t svg_text s)) =
      (map step_pc (steps s))[t := Persisting r]"
    using pcs_race_won by blast
  show ?thesis
    unfolding chain_ok_def r race_won_frame
    using assms by (intro chain_inv_persist) (simp_all add: chain_ok_def pc_of_def)
qed

text \<open>What the invariant says of a step by its program counter.\<close>

lemma chain_ok_Loading:
  "chain_ok s \<Longrightarrow> t < length (steps s) \<Longrightarrow> pc_of s t = Loading \<Longrightarrow>
   Engine_started t \<notin> set (trace s)"
  by (auto simp: chain_ok_def chain_inv_def fresh_ok_def pc_of_def)

lemma chain_ok_Persisting:
  "chain_ok s \<Longrightarrow> t < length (steps s) \<Longrightarrow> pc_of s t = Persisting r \<Longrightarrow>
   Engine_finished t \<in> set (trace s)"
  by (auto simp: chain_ok_def chain_inv_def pers_ok_def pc_of_def)

lemma chain_ok_Finished:
  "chain_ok s \<Longrightarrow> t < length (steps s) \<Longrightarrow> pc_of s t = Finished \<Longrightarrow>
   Step_finished t \<in> set (trace s)"
  by (auto simp: chain_ok_def chain_inv_def fin_ok_def pc_of_def)

text \<open>Every action keeps the invariant of the chain.\<close>

lemma chain_ok_engine_settles:
  assumes ok: "chain_ok s" and st: "engine_settles t continue s = Some s'"
    and cont: "\<And>s1. chain_ok s1 \<Longrightarrow> t < length (steps s1) \<Longrightarrow> pc_of s1 t = Racing \<Longrightarrow>
                 Engine_finished t \<in> set (trace s1) \<Longrightarrow> chain_ok (continue s1)"
  shows "chain_ok s'"
proof -
  let ?s1 = "log (Engine_finished t) (s\<lparr>engine_running := removeAll t (engine_running s)\<rparr>)"
  from ok have ok1: "chain_ok ?s1" by (intro chain_ok_log) simp_all
  show ?thesis
  proof (cases "t < length (steps s) \<and> pc_of s t = Racing")
    case True
    with st have s': "s' = continue ?s1"
      by (simp add: engine_settles_def Let_def split: if_splits)
    from True have "t < length (steps ?s1)" "pc_of ?s1 t = Racing"
      by (simp_all add: pc_of_def)
    with ok1 show ?thesis unfolding s' by (intro cont) simp_all
  next
    case False
    with st have "s' = ?s1" by (auto simp: engine_settles_def Let_def split: if_splits)
    with ok1 show ?thesis by simp
  qed
qed

lemma chain_ok_resume_pass:
  assumes ok: "chain_ok s" and st: "resume_pass env i p s = Some s'"
  shows "chain_ok s'"
proof (cases "pass_pc p")
  case (Awaiting_get r block blocks)
  show ?thesis
  proof (cases r)
    case (Inl e)
    with Awaiting_get st ok show ?thesis by (auto simp: resume_pass_def Let_def)
  next
    case (Inr found)
    show ?thesis
    proof (cases found)
      case None
      let ?s0 = "s\<lparr>passes := remove_nth i (passes s)\<rparr>"
      from ok have "chain_ok (snd (append_step (block_hash block) (source block) ?s0))"
        by (intro chain_ok_append_step) simp
      with None Inr Awaiting_get st show ?thesis
        by (auto simp: resume_pass_def Let_def split: prod.splits)
    next
      case (Some cached)
      with Inr Awaiting_get st ok show ?thesis by (auto simp: resume_pass_def Let_def)
    qed
  qed
next
  case (Awaiting_render t blocks)
  let ?s0 = "s\<lparr>passes := remove_nth i (passes s)\<rparr>"
  show ?thesis
  proof (cases "t < length (steps s) \<and> pc_of s t = Finished")
    case True
    with ok have "Step_finished t \<in> set (trace s)" by (simp add: chain_ok_Finished)
    with ok have "chain_ok (log (Caller_resumed t) (with_pm (nudgeDocument (pass_document p)) ?s0))"
      by (intro chain_ok_log) simp_all
    with Awaiting_render st True show ?thesis by (auto simp: resume_pass_def Let_def)
  next
    case False
    with Awaiting_render st ok show ?thesis
      by (auto simp: resume_pass_def Let_def split: if_splits)
  qed
next
  case (Awaiting_nudge blocks)
  with st ok show ?thesis by (auto simp: resume_pass_def Let_def)
qed

lemma chain_ok_resume_retry:
  assumes ok: "chain_ok s" and st: "resume_retry i r s = Some s'"
  shows "chain_ok s'"
proof (cases "retry_pc r")
  case (Awaiting_invalidate res)
  show ?thesis
  proof (cases res)
    case (Inl e)
    with Awaiting_invalidate st ok show ?thesis by (auto simp: resume_retry_def Let_def)
  next
    case (Inr u)
    let ?s0 = "s\<lparr>retries := remove_nth i (retries s)\<rparr>"
    from ok have "chain_ok (snd (append_step (retry_hash r) (retry_source r) ?s0))"
      by (intro chain_ok_append_step) simp
    with Inr Awaiting_invalidate st show ?thesis
      by (auto simp: resume_retry_def Let_def split: prod.splits)
  qed
next
  case (Retry_awaiting_render t)
  let ?s0 = "s\<lparr>retries := remove_nth i (retries s)\<rparr>"
  show ?thesis
  proof (cases "t < length (steps s) \<and> pc_of s t = Finished")
    case True
    with ok have "Step_finished t \<in> set (trace s)" by (simp add: chain_ok_Finished)
    with ok have "chain_ok (log (Caller_resumed t) (with_pm (nudgeDocument (retry_document r)) ?s0))"
      by (intro chain_ok_log) simp_all
    with Retry_awaiting_render st True show ?thesis by (auto simp: resume_retry_def Let_def)
  next
    case False
    with Retry_awaiting_render st ok show ?thesis
      by (auto simp: resume_retry_def Let_def split: if_splits)
  qed
next
  case Retry_awaiting_nudge
  with st ok show ?thesis by (auto simp: resume_retry_def Let_def)
qed

lemma chain_ok_step:
  assumes ok: "chain_ok s" and st: "step env a s = Some s'"
  shows "chain_ok s'"
proof (cases a)
  case (Call_renderDocument document)
  with st ok show ?thesis by (auto simp: Let_def split: if_splits)
next
  case (Call_retryBlock h src document)
  with st ok show ?thesis by (auto simp: Let_def split: prod.splits)
next
  case Call_clearMemoryCache
  with st ok show ?thesis by auto
next
  case Call_resetEngine
  with st ok show ?thesis by auto
next
  case (Theme_changes dark)
  with st ok show ?thesis by auto
next
  case (Resume_pass i)
  with st have "resume_pass env i (passes s ! i) s = Some s'" by (simp split: if_splits)
  with ok show ?thesis by (rule chain_ok_resume_pass)
next
  case (Nudge_rejects i)
  with st ok show ?thesis
    by (auto simp: nudge_rejects_def split: if_splits pass_pc.splits)
next
  case (Resume_retry i)
  with st have "resume_retry i (retries s ! i) s = Some s'" by (simp split: if_splits)
  with ok show ?thesis by (rule chain_ok_resume_retry)
next
  case (Retry_nudge_rejects i)
  with st ok show ?thesis
    by (auto simp: retry_nudge_rejects_def split: if_splits retry_pc.splits)
next
  case (Step_begins t)
  with st have t: "t < length (steps s)" "pc_of s t = Queued" "t = 0 \<or> pc_of s (t - 1) = Finished"
    and s': "s' = set_pc t Loading s"
    by (auto split: if_splits)
  from ok t show ?thesis unfolding s' by (rule chain_ok_begin)
next
  case (Step_passed_over t)
  with st have t: "t < length (steps s)" "pc_of s t = Queued" "0 < t" "pc_of s (t - 1) = Broken"
    and s': "s' = set_pc t Broken s"
    by (auto split: if_splits)
  have "\<forall>t' < t. settled (pc_of s t')"
  proof (intro allI impI)
    fix t' assume lt: "t' < t"
    show "settled (pc_of s t')"
    proof (cases "t' = t - 1")
      case True
      with t show ?thesis by (simp add: settled_def)
    next
      case False
      with lt have "t' < t - 1" by simp
      moreover from t have "t - 1 < length (map step_pc (steps s))"
        "map step_pc (steps s) ! (t - 1) \<noteq> Queued" by (simp_all add: pc_of_def)
      ultimately have "settled (map step_pc (steps s) ! t')"
        using chain_ok_pred [OF ok] by (intro pred_okD(2) [of _ "t - 1"]) simp_all
      with lt t show ?thesis by (simp add: pc_of_def)
    qed
  qed
  moreover from t have "\<not> settled (pc_of s t)" by (simp add: settled_def)
  ultimately show ?thesis using ok t unfolding s' by (intro chain_ok_break) simp_all
next
  case (Import_rejects t err)
  with st have t: "t < length (steps s)" "pc_of s t = Loading" and s': "s' = step_fails t err s"
    by (auto split: if_splits)
  from chain_ok_Loading [OF ok t] ok t show ?thesis
    unfolding s' by (intro chain_ok_step_fails) (simp_all add: settled_def)
next
  case (Engine_invoked t)
  with st have t: "t < length (steps s)" "pc_of s t = Loading"
    by (auto split: if_splits)
  let ?s1 = "(with_pm (\<lambda>p. p\<lparr>tikzjaxLoaded := True,
                  engine_calls := engine_calls p @
                    [(step_hash (steps s ! t), engine_source (step_source (steps s ! t)))]\<rparr>) s)
              \<lparr>engine_running := t # engine_running s\<rparr>"
  from t have "t < length (steps ?s1)" "pc_of ?s1 t = Loading" by (simp_all add: pc_of_def)
  moreover from ok have "chain_ok ?s1" by simp
  ultimately have "chain_ok (log (Engine_started t) (set_pc t Racing ?s1))"
    by (intro chain_ok_invoke)
  with Engine_invoked st t show ?thesis by simp
next
  case (Engine_resolves t svg_text)
  with st have "engine_settles t (race_won env t svg_text) s = Some s'" by simp
  with ok show ?thesis by (rule chain_ok_engine_settles) (rule chain_ok_race_won)
next
  case (Engine_rejects t err)
  with st have "engine_settles t (step_fails t err) s = Some s'" by simp
  with ok show ?thesis
    by (rule chain_ok_engine_settles) (intro chain_ok_step_fails, simp_all add: settled_def)
next
  case (Timer_fires t)
  with st have t: "t < length (steps s)" "pc_of s t = Racing"
    and s': "s' = step_fails t (timeout_error env) (log (Timed_out t) s)"
    by (auto split: if_splits)
  from ok have "chain_ok (log (Timed_out t) s)" by (intro chain_ok_log) simp_all
  with t show ?thesis unfolding s'
    by (intro chain_ok_step_fails) (simp_all add: pc_of_def settled_def)
next
  case (Set_returns t)
  with st have t: "t < length (steps s)" by (auto split: if_splits)
  show ?thesis
  proof (cases "pc_of s t")
    case (Persisting r)
    from chain_ok_Persisting [OF ok t Persisting] have e: "Engine_finished t \<in> set (trace s)" .
    show ?thesis
    proof (cases r)
      case (Inl err)
      with Persisting Set_returns st t have s': "s' = step_fails t (thrown err) s" by simp
      from ok t Persisting e show ?thesis unfolding s'
        by (intro chain_ok_step_fails) (simp_all add: settled_def)
    next
      case (Inr u)
      with Persisting Set_returns st t have s': "s' = log (Step_finished t) (set_pc t Finished s)"
        by simp
      from ok t Persisting e have "chain_inv ((map step_pc (steps s))[t := Finished])
          (Step_finished t # trace s)"
        by (intro chain_inv_finish) (simp_all add: chain_ok_def pc_of_def settled_def)
      then show ?thesis unfolding s' by (simp add: chain_ok_def)
    qed
  qed (use Set_returns st t in simp_all)
qed

lemma chain_ok_run:
  "run env acts s = Some s' \<Longrightarrow> chain_ok s \<Longrightarrow> chain_ok s'"
proof (induction acts arbitrary: s)
  case Nil
  then show ?case by simp
next
  case (Cons a acts)
  from Cons.prems(1) obtain s1 where s1: "step env a s = Some s1" "run env acts s1 = Some s'"
    by (auto split: option.splits)
  from Cons.prems(2) s1(1) have "chain_ok s1" by (rule chain_ok_step)
  with s1(2) show ?case by (rule Cons.IH)
qed

lemma chain_ok_system0: "chain_ok system0"
  by (simp add: chain_ok_def system0_def chain_inv_initial)

subsection \<open>The passes along a run\<close>

lemma pass_ok_cong:
  "pass_ok s \<Longrightarrow> passes s' = passes s \<and> isRendering (pm s') = isRendering (pm s) \<Longrightarrow> pass_ok s'"
  by (simp add: pass_ok_def)

lemma isRendering_nudgeDocument [simp]:
  "isRendering (nudgeDocument document q) = isRendering q"
  by (simp add: nudgeDocument_def)

lemma pass_ok_advance_pass:
  "passes s = [] \<Longrightarrow> isRendering (pm s) \<Longrightarrow> pass_ok (advance_pass document blocks s)"
  by (induction blocks) (auto simp: pass_ok_def split: prod.splits)

lemma remove_nth_single [simp]: "remove_nth 0 [x] = []"
  by (simp add: remove_nth_def)

lemma pass_ok_single:
  assumes "pass_ok s" "i < length (passes s)"
  obtains p where "passes s = [p]" "i = 0" "isRendering (pm s)"
proof -
  from assms have "length (passes s) = 1" "isRendering (pm s)" "i = 0"
    by (auto simp: pass_ok_def)
  moreover then obtain p where "passes s = [p]" by (cases "passes s") auto
  ultimately show ?thesis using that by blast
qed

lemma pass_ok_resume_pass:
  assumes ok: "pass_ok s" and i: "i < length (passes s)"
    and st: "resume_pass env i (passes s ! i) s = Some s'"
  shows "pass_ok s'"
proof -
  from ok i obtain p where p: "passes s = [p]" and i0: "i = 0" and r: "isRendering (pm s)"
    by (rule pass_ok_single)
  let ?s0 = "s\<lparr>passes := remove_nth i (passes s)\<rparr>"
  have s0: "passes ?s0 = []" "isRendering (pm ?s0)" using p i0 r by simp_all
  from st p i0 have st: "resume_pass env 0 p s = Some s'" by simp
  show ?thesis
  proof (cases "pass_pc p")
    case (Awaiting_get res block blocks)
    show ?thesis
    proof (cases res)
      case (Inl e)
      with Awaiting_get st p show ?thesis by (auto simp: resume_pass_def Let_def pass_ok_def)
    next
      case (Inr found)
      with Awaiting_get st p r show ?thesis
        by (cases found)
          (auto simp: resume_pass_def Let_def pass_ok_def append_step_def)
    qed
  next
    case (Awaiting_render t blocks)
    with st p r show ?thesis
      by (auto simp: resume_pass_def Let_def pass_ok_def split: if_splits)
  next
    case (Awaiting_nudge blocks)
    with st p i0 have "s' = advance_pass (pass_document p) blocks ?s0"
      by (simp add: resume_pass_def Let_def)
    with s0 show ?thesis by (simp add: pass_ok_advance_pass)
  qed
qed

lemma pass_ok_nudge_rejects:
  assumes ok: "pass_ok s" and i: "i < length (passes s)"
    and st: "nudge_rejects i (passes s ! i) s = Some s'"
  shows "pass_ok s'"
proof -
  from ok i obtain p where p: "passes s = [p]" and i0: "i = 0" and r: "isRendering (pm s)"
    by (rule pass_ok_single)
  with st show ?thesis
    by (auto simp: nudge_rejects_def pass_ok_def split: pass_pc.splits)
qed

lemma pass_ok_resume_retry:
  assumes ok: "pass_ok s" and st: "resume_retry i r s = Some s'"
  shows "pass_ok s'"
proof -
  from st have "passes s' = passes s \<and> isRendering (pm s') = isRendering (pm s)"
    by (cases "retry_pc r")
      (auto simp: resume_retry_def Let_def append_step_def split: sum.splits if_splits)
  with ok show ?thesis by (rule pass_ok_cong)
qed

lemma pass_ok_engine_settles:
  assumes ok: "pass_ok s" and st: "engine_settles t continue s = Some s'"
    and cont: "\<And>s1. passes (continue s1) = passes s1 \<and>
                 isRendering (pm (continue s1)) = isRendering (pm s1)"
  shows "pass_ok s'"
proof -
  from st have "passes s' = passes s \<and> isRendering (pm s') = isRendering (pm s)"
    by (auto simp: engine_settles_def Let_def cont split: if_splits)
  with ok show ?thesis by (rule pass_ok_cong)
qed

lemma pass_ok_step:
  assumes ok: "pass_ok s" and st: "step env a s = Some s'"
  shows "pass_ok s'"
proof (cases a)
  case (Call_renderDocument document)
  show ?thesis
  proof (cases "isRendering (pm s) \<or> parse (generateHash env) document = []")
    case True
    with Call_renderDocument st ok show ?thesis by (auto simp: Let_def split: if_splits)
  next
    case False
    with ok have "passes s = []" by (auto simp: pass_ok_def)
    then have "pass_ok (advance_pass document (parse (generateHash env) document)
                  (with_pm (\<lambda>p. p\<lparr>isRendering := True\<rparr>) s))"
      by (intro pass_ok_advance_pass) simp_all
    with False Call_renderDocument st show ?thesis by (auto simp: Let_def)
  qed
next
  case (Call_retryBlock h src document)
  with st have "passes s' = passes s \<and> isRendering (pm s') = isRendering (pm s)"
    by (auto simp: Let_def split: prod.splits)
  with ok show ?thesis by (rule pass_ok_cong)
next
  case Call_clearMemoryCache
  with st have "passes s' = passes s \<and> isRendering (pm s') = isRendering (pm s)" by auto
  with ok show ?thesis by (rule pass_ok_cong)
next
  case Call_resetEngine
  with st have "passes s' = passes s \<and> isRendering (pm s') = isRendering (pm s)" by auto
  with ok show ?thesis by (rule pass_ok_cong)
next
  case (Theme_changes dark)
  with st have "passes s' = passes s \<and> isRendering (pm s') = isRendering (pm s)" by auto
  with ok show ?thesis by (rule pass_ok_cong)
next
  case (Resume_pass i)
  with st have "i < length (passes s)" "resume_pass env i (passes s ! i) s = Some s'"
    by (simp_all split: if_splits)
  with ok show ?thesis by (rule pass_ok_resume_pass)
next
  case (Nudge_rejects i)
  with st have "i < length (passes s)" "nudge_rejects i (passes s ! i) s = Some s'"
    by (simp_all split: if_splits)
  with ok show ?thesis by (rule pass_ok_nudge_rejects)
next
  case (Resume_retry i)
  with st have "resume_retry i (retries s ! i) s = Some s'"
    by (simp split: if_splits)
  with ok show ?thesis by (rule pass_ok_resume_retry)
next
  case (Retry_nudge_rejects i)
  with st have "passes s' = passes s \<and> isRendering (pm s') = isRendering (pm s)"
    by (auto simp: retry_nudge_rejects_def split: if_splits retry_pc.splits)
  with ok show ?thesis by (rule pass_ok_cong)
next
  case (Step_begins t)
  with st have "passes s' = passes s \<and> isRendering (pm s') = isRendering (pm s)"
    by (auto split: if_splits)
  with ok show ?thesis by (rule pass_ok_cong)
next
  case (Step_passed_over t)
  with st have "passes s' = passes s \<and> isRendering (pm s') = isRendering (pm s)"
    by (auto split: if_splits)
  with ok show ?thesis by (rule pass_ok_cong)
next
  case (Import_rejects t err)
  with st have "passes s' = passes s \<and> isRendering (pm s') = isRendering (pm s)"
    by (auto split: if_splits)
  with ok show ?thesis by (rule pass_ok_cong)
next
  case (Engine_invoked t)
  with st have "passes s' = passes s \<and> isRendering (pm s') = isRendering (pm s)"
    by (auto split: if_splits)
  with ok show ?thesis by (rule pass_ok_cong)
next
  case (Engine_resolves t svg_text)
  with st have "engine_settles t (race_won env t svg_text) s = Some s'" by simp
  with ok show ?thesis by (rule pass_ok_engine_settles) simp
next
  case (Engine_rejects t err)
  with st have "engine_settles t (step_fails t err) s = Some s'" by simp
  with ok show ?thesis by (rule pass_ok_engine_settles) simp
next
  case (Timer_fires t)
  with st have "passes s' = passes s \<and> isRendering (pm s') = isRendering (pm s)"
    by (auto split: if_splits)
  with ok show ?thesis by (rule pass_ok_cong)
next
  case (Set_returns t)
  with st have "passes s' = passes s \<and> isRendering (pm s') = isRendering (pm s)"
    by (auto split: if_splits step_pc.splits sum.splits)
  with ok show ?thesis by (rule pass_ok_cong)
qed

lemma pass_ok_run:
  "run env acts s = Some s' \<Longrightarrow> pass_ok s \<Longrightarrow> pass_ok s'"
proof (induction acts arbitrary: s)
  case Nil
  then show ?case by simp
next
  case (Cons a acts)
  from Cons.prems(1) obtain s1 where s1: "step env a s = Some s1" "run env acts s1 = Some s'"
    by (auto split: option.splits)
  from Cons.prems(2) s1(1) have "pass_ok s1" by (rule pass_ok_step)
  with s1(2) show ?case by (rule Cons.IH)
qed

lemma pass_ok_system0: "pass_ok system0"
  by (simp add: pass_ok_def system0_def initial_def)


subsection \<open>Two requests\<close>

text \<open>
  Two calls of \<open>retryBlock\<close>, the second made while the first is suspended; each has
  appended its step to the chain when its \<open>invalidate\<close> has returned.
\<close>

definition two_requests :: "action list" where
  "two_requests =
     [Call_retryBlock (ascii ''a'') (ascii ''A'') a_document, Resume_retry 0,
      Call_retryBlock (ascii ''b'') (ascii ''B'') a_document, Resume_retry (Suc 0)]"

text \<open>The timer of the first request fires before the engine has answered.\<close>

definition first_times_out :: "action list" where
  "first_times_out =
     two_requests @
     [Step_begins 0, Engine_invoked 0, Timer_fires 0, Step_begins (Suc 0), Engine_invoked (Suc 0)]"

text \<open>The engine answers the first request, whose caller is resumed; then the second is served.\<close>

definition first_is_answered :: "action list" where
  "first_is_answered =
     two_requests @
     [Step_begins 0, Engine_invoked 0, Engine_resolves 0 (ascii ''<svg/>''), Set_returns 0,
      Resume_retry 0, Step_begins (Suc 0), Engine_invoked (Suc 0)]"

lemma first_is_answered_trace:
  "\<exists>s. run stub_collaborators first_is_answered system0 = Some s \<and>
       trace s = [Engine_started (Suc 0), Caller_resumed 0, Step_finished 0, Engine_finished 0,
                  Engine_started 0]"
  by (simp add: first_is_answered_def two_requests_def run_eval race_won_def cm_set_def
      addToIndex_def)




subsection \<open>The guard\<close>

text \<open>
  C6. In every run, at most one call of \<open>renderDocument\<close> is under way, and the flag
  is set exactly when one is; while one is under way, a call of \<open>renderDocument\<close>, for
  any document, returns with the state as it was: no block extracted, no step appended to
  the chain, no engine call, no write to either cache, no nudge, and nothing left to run
  later.
\<close>

theorem reentrancy_guard:
  assumes "run env acts system0 = Some s"
  shows "length (passes s) \<le> 1 \<and> (isRendering (pm s) \<longleftrightarrow> passes s \<noteq> []) \<and>
         (passes s \<noteq> [] \<longrightarrow> step env (Call_renderDocument document) s = Some s)"
proof -
  from assms pass_ok_system0 have "pass_ok s" by (rule pass_ok_run)
  then show ?thesis by (auto simp: pass_ok_def)
qed

lemma pass_suspended:
  "\<exists>s. run stub_collaborators [Call_renderDocument two_blocks] system0 = Some s \<and> passes s \<noteq> []"
proof -
  from two_blocks_hashes obtain b bs
    where p: "parse (generateHash stub_collaborators) two_blocks = b # bs"
    by (cases "parse (generateHash stub_collaborators) two_blocks") auto
  show ?thesis
    by (simp add: p system0_def initial_def split: prod.splits)
qed

theorem reentrancy_guard_witness:
  "\<exists>s. run stub_collaborators [Call_renderDocument two_blocks] system0 = Some s \<and>
       length (passes s) = 1 \<and> isRendering (pm s) \<and>
       step stub_collaborators (Call_renderDocument two_blocks) s = Some s"
proof -
  from pass_suspended obtain s
    where r: "run stub_collaborators [Call_renderDocument two_blocks] system0 = Some s"
      and p: "passes s \<noteq> []"
    by blast
  from reentrancy_guard [OF r, of two_blocks] p
  have "length (passes s) = 1 \<and> isRendering (pm s) \<and>
        step stub_collaborators (Call_renderDocument two_blocks) s = Some s"
    by (cases "passes s") auto
  with r show ?thesis by blast
qed


end
